theory Spec2Isabelle
  imports Complex_Main
begin

section \<open>Synthetic stellar samples (gfunc2d/mksynth.py)\<close>

text \<open>
  A shallow embedding of \<^verbatim>\<open>generate_synth_stars\<close> and \<^verbatim>\<open>make_synth_obs\<close>.
  A float64 value is the \<^typ>\<open>real\<close> number it denotes. The arithmetic on which a
  property below depends through its rounding is evaluated in binary64: the forcing
  threshold of line 108 and the interpolation of lines 129-132; the other operations are
  exact. A Python exception is a value of \<open>py_error\<close> on the left of a sum; the
  process-wide generator \<^verbatim>\<open>np.random\<close> is an explicit state that every drawing function
  takes and returns.
\<close>

subsection \<open>Exceptions\<close>

datatype py_error =
  ValueError | IndexError | KeyError | ZeroDivisionError | OverflowError | GridError

text \<open>Sequencing of fallible steps: the first exception aborts the rest.\<close>

definition bind_res :: "py_error + 'a \<Rightarrow> ('a \<Rightarrow> py_error + 'b) \<Rightarrow> py_error + 'b" where
  "bind_res r f = (case r of Inl e \<Rightarrow> Inl e | Inr v \<Rightarrow> f v)"

subsection \<open>float64 arithmetic\<close>

text \<open>
  IEEE 754 binary64, round to nearest, ties to even. A non-zero \<open>x\<close> lies in the binade
  of exponent \<open>floor (log2 |x|)\<close>, not below the least normal exponent -1022 (gradual
  underflow); the spacing of the float64 values there is \<open>2^(e-52)\<close>, and \<open>x\<close> is
  rounded to the nearest multiple of it, a tie going to the even multiple. A result of
  magnitude \<open>2^1024\<close> or more, which is infinite in float64, is not modelled.
\<close>

definition round_half_even :: "real \<Rightarrow> int" where
  "round_half_even q =
     (let f = \<lfloor>q\<rfloor>; r = q - of_int f in
      if r < 1 / 2 then f else if 1 / 2 < r then f + 1 else if even f then f else f + 1)"

definition float64_exponent :: "real \<Rightarrow> int" where
  "float64_exponent x = max \<lfloor>log 2 \<bar>x\<bar>\<rfloor> (- 1022)"

definition fl64 :: "real \<Rightarrow> real" where
  "fl64 x =
     (if x = 0 then 0
      else (let ulp = 2 powi (float64_exponent x - 52)
            in ulp * of_int (round_half_even (x / ulp))))"

text \<open>
  The four operations on float64 values: the exact result, rounded. (Division by zero
  gives an infinity or nan in numpy; the one division below has a divisor that is the
  difference of two distinct float64 values, which never rounds to zero.)
\<close>

definition fl_add :: "real \<Rightarrow> real \<Rightarrow> real" where
  "fl_add x y = fl64 (x + y)"

definition fl_sub :: "real \<Rightarrow> real \<Rightarrow> real" where
  "fl_sub x y = fl64 (x - y)"

definition fl_mul :: "real \<Rightarrow> real \<Rightarrow> real" where
  "fl_mul x y = fl64 (x * y)"

definition fl_div :: "real \<Rightarrow> real \<Rightarrow> real" where
  "fl_div x y = fl64 (x / y)"

text \<open>The least magnitude that rounds to an infinity: the largest float64 plus half a step.\<close>

definition float64_overflow :: real where
  "float64_overflow = 2 ^ 1024 - 2 ^ 970"

subsection \<open>The numpy primitives used by the sampler\<close>

text \<open>\<^verbatim>\<open>np.diff(a)\<close>: \<open>out[i] = a[i+1] - a[i]\<close>; empty for fewer than two entries.\<close>

definition diff :: "real list \<Rightarrow> real list" where
  "diff a = map (\<lambda>(x, y). y - x) (zip a (tl a))"

text \<open>
  \<^verbatim>\<open>np.argsort(a)\<close>: the indices that sort \<open>a\<close> increasingly. Equal keys keep their
  order of position here (numpy's default sort does so on the short arrays of a track
  but promises it for no length).
\<close>

definition argsort :: "real list \<Rightarrow> nat list" where
  "argsort a = sort_key (\<lambda>i. a ! i) [0..<length a]"

text \<open>
  \<^verbatim>\<open>int(np.median(inds))\<close> for an array of indices: the middle entry of the sorted
  array, or the mean of the two middle entries, truncated by \<^verbatim>\<open>int\<close>. The median of an
  empty array is nan, on which \<^verbatim>\<open>int\<close> raises ValueError.
\<close>

definition int_median :: "nat list \<Rightarrow> py_error + nat" where
  "int_median inds =
     (let s = sort inds; n = length s in
      if n = 0 then Inl ValueError
      else if odd n then Inr (s ! (n div 2))
      else Inr (nat \<lfloor>(real (s ! (n div 2 - 1)) + real (s ! (n div 2))) / 2\<rfloor>))"

text \<open>
  \<^verbatim>\<open>np.argmin(a)\<close>: the first index of the least entry; ValueError on an empty array.
\<close>

fun argmin_from :: "nat \<Rightarrow> real \<Rightarrow> nat \<Rightarrow> real list \<Rightarrow> nat" where
  "argmin_from best v i [] = best"
| "argmin_from best v i (x # xs) =
     (if x < v then argmin_from i x (Suc i) xs else argmin_from best v (Suc i) xs)"

definition argmin :: "real list \<Rightarrow> py_error + nat" where
  "argmin a = (case a of [] \<Rightarrow> Inl ValueError | x # xs \<Rightarrow> Inr (argmin_from 0 x 1 xs))"

text \<open>Indexing \<^verbatim>\<open>a[i]\<close> with a non-negative index, and \<^verbatim>\<open>a[-1]\<close>.\<close>

definition item :: "'a list \<Rightarrow> nat \<Rightarrow> py_error + 'a" where
  "item a i = (if i < length a then Inr (a ! i) else Inl IndexError)"

definition last_item :: "'a list \<Rightarrow> py_error + 'a" where
  "last_item a = (if a = [] then Inl IndexError else Inr (last a))"

subsection \<open>The dwarf/giant split (lines 101-104)\<close>

text \<open>
  \<^verbatim>\<open>low_inds = np.argsort(np.diff(10**q['logT']))[:5]\<close>
  \<^verbatim>\<open>split_ind = int(np.median(low_inds))\<close>
\<close>

definition temperatures :: "real list \<Rightarrow> real list" where
  "temperatures logT = map (\<lambda>x. 10 powr x) logT"

definition low_inds :: "real list \<Rightarrow> nat list" where
  "low_inds logT = take 5 (argsort (diff (temperatures logT)))"

definition split_ind :: "real list \<Rightarrow> py_error + nat" where
  "split_ind logT = int_median (low_inds logT)"

text \<open>
  The split as the specification words it: the five smallest \<^emph>\<open>absolute\<close> differences.
\<close>

definition low_inds_abs_spec :: "real list \<Rightarrow> nat list" where
  "low_inds_abs_spec logT = take 5 (argsort (map abs (diff (temperatures logT))))"

definition split_ind_abs_spec :: "real list \<Rightarrow> py_error + nat" where
  "split_ind_abs_spec logT = int_median (low_inds_abs_spec logT)"

subsection \<open>The random number generator\<close>

text \<open>
  \<^verbatim>\<open>np.random\<close> is one process-wide generator. Its state is a value of type \<open>'s\<close>;
  the three primitives the program reaches are parameters: \<^verbatim>\<open>np.random.seed\<close>, the
  uniform draw on [0,1) behind \<^verbatim>\<open>rand\<close> and \<^verbatim>\<open>choice\<close>, and the standard normal draw
  behind \<^verbatim>\<open>normal\<close>.
\<close>

record 's np_random =
  np_seed :: "int \<Rightarrow> 's"
  random_sample :: "'s \<Rightarrow> real \<times> 's"
  gauss :: "'s \<Rightarrow> real \<times> 's"

text \<open>\<^verbatim>\<open>np.random.normal(loc, scale)\<close> is \<open>loc + scale * gauss\<close>; a negative scale raises.\<close>

definition normal :: "'s np_random \<Rightarrow> real \<Rightarrow> real \<Rightarrow> 's \<Rightarrow> py_error + real \<times> 's" where
  "normal np loc scale s =
     (if scale < 0 then Inl ValueError
      else case gauss np s of (z, s') \<Rightarrow> Inr (loc + scale * z, s'))"

subsection \<open>The burst array\<close>

text \<open>
  An n-dimensional array: its shape and its entries in row-major order
  (\<open>length (elems a) = prod_list (shape a)\<close> for an array numpy can build).
\<close>

record ndarray =
  shape :: "nat list"
  elems :: "real list"

text \<open>
  \<^verbatim>\<open>a[:, 2]\<close>: IndexError with fewer than two axes or a second axis shorter than 3;
  otherwise the second axis is dropped.
\<close>

definition column2 :: "ndarray \<Rightarrow> py_error + ndarray" where
  "column2 a =
     (case shape a of
        n # k # rest \<Rightarrow>
          if 2 < k then
            (let b = prod_list rest in
             Inr \<lparr>shape = n # rest,
                  elems = concat (map (\<lambda>i. take b (drop (i * k * b + 2 * b) (elems a))) [0..<n])\<rparr>)
          else Inl IndexError
      | _ \<Rightarrow> Inl IndexError)"

text \<open>
  \<^verbatim>\<open>a[i, j]\<close> on a two-dimensional array. (With more axes the expression is a
  sub-array; the sampler fails at the burst choice before it reaches one.)
\<close>

definition item2 :: "ndarray \<Rightarrow> nat \<Rightarrow> nat \<Rightarrow> py_error + real" where
  "item2 a i j =
     (case shape a of
        [n, k] \<Rightarrow> if i < n \<and> j < k then item (elems a) (i * k + j) else Inl IndexError
      | _ \<Rightarrow> Inl IndexError)"

text \<open>
  \<^verbatim>\<open>prob / np.sum(prob)\<close>. Dividing by a zero sum raises nothing: it fills the array
  with nan or infinities (an empty array stays empty), for which \<open>None\<close> stands;
  \<^verbatim>\<open>np.random.choice\<close> raises on every such array.
\<close>

definition divide_by_sum :: "ndarray \<Rightarrow> ndarray option" where
  "divide_by_sum p =
     (let t = sum_list (elems p) in
      if t = 0 then None else Some (p\<lparr>elems := map (\<lambda>x. x / t) (elems p)\<rparr>))"

fun cumsum_from :: "real \<Rightarrow> real list \<Rightarrow> real list" where
  "cumsum_from acc [] = []"
| "cumsum_from acc (x # xs) = (acc + x) # cumsum_from (acc + x) xs"

text \<open>
  \<^verbatim>\<open>np.random.choice(a, size, p=p)\<close> first checks its arguments: ValueError for an
  empty population, for \<open>p\<close> of another size, holding a negative entry, or not summing
  to 1 within \<open>sqrt(eps) = 2^-26\<close>.
\<close>

definition p_accepted :: "nat \<Rightarrow> real list \<Rightarrow> bool" where
  "p_accepted pop_size p \<longleftrightarrow>
     pop_size \<noteq> 0 \<and> length p = pop_size \<and> \<not> list_ex (\<lambda>x. x < 0) p
     \<and> \<bar>sum_list p - 1\<bar> \<le> 1 / 2 ^ 26"

text \<open>
  Then each uniform draw \<open>u\<close> is located in the normalised cumulative sums:
  \<^verbatim>\<open>cdf = p.cumsum(); cdf /= cdf[-1]; cdf.searchsorted(u, side='right')\<close>.
\<close>

definition locate :: "real list \<Rightarrow> real \<Rightarrow> nat" where
  "locate p u =
     (let cdf = cumsum_from 0 p; cdf = map (\<lambda>c. c / last cdf) cdf
      in length (filter (\<lambda>c. c \<le> u) cdf))"

text \<open>
  \<^verbatim>\<open>np.random.choice(range(pop_size), p=p)\<close>, one draw. \<open>p\<close> is the array left by
  \<open>divide_by_sum\<close>: nan entries and an array that is not one-dimensional are
  ValueErrors as well.
\<close>

definition choice :: "'s np_random \<Rightarrow> nat \<Rightarrow> ndarray option \<Rightarrow> 's \<Rightarrow> py_error + nat \<times> 's" where
  "choice np pop_size p s =
     (case p of
        None \<Rightarrow> Inl ValueError
      | Some pa \<Rightarrow>
          if length (shape pa) \<noteq> 1 then Inl ValueError
          else if \<not> p_accepted pop_size (elems pa) then Inl ValueError
          else (case random_sample np s of (u, s') \<Rightarrow> Inr (locate (elems pa) u, s')))"

subsection \<open>The isochrone grid (external collaborator)\<close>

text \<open>
  \<^verbatim>\<open>gfunc2d.gridtools\<close> is not part of the sources; the opened grid is a parameter:
  \<open>params\<close> is \<^verbatim>\<open>get_gridparams(gridfile)[0]\<close> and \<open>get_isochrone\<close> takes
  \<open>(alpha, feh, age)\<close> to the track \<open>q\<close> (parameter name to array, ordered by
  initial mass) and the triple \<open>afa\<close> it realised, or fails.
\<close>

type_synonym isochrone = "string \<rightharpoonup> real list"

record isogrid =
  params :: "string list"
  get_isochrone :: "real \<Rightarrow> real \<Rightarrow> real \<Rightarrow> py_error + isochrone \<times> (real \<times> real \<times> real)"

definition lookup :: "(string \<rightharpoonup> 'a) \<Rightarrow> string \<Rightarrow> py_error + 'a" where
  "lookup d k = (case d k of None \<Rightarrow> Inl KeyError | Some v \<Rightarrow> Inr v)"

subsection \<open>generate_synth_stars: arguments and preparation (lines 53-87)\<close>

record gen_args =
  t_bursts :: ndarray
  ns :: int
  feh_mean :: real
  feh_disp :: real
  IMF_alpha :: real
  rand_seed :: int
  extra_giants :: real

text \<open>
  What the code before the loop leaves behind for the age draw: nothing for a single
  burst, \<open>prob\<close> and \<open>n_bursts\<close> otherwise.
\<close>

datatype burst_aux = SingleBurst | MultiBurst "ndarray option" nat

text \<open>
  \<^verbatim>\<open>single_burst = True if len(t_bursts.shape) == 1 else False\<close>; \<^verbatim>\<open>np.zeros(ns)\<close>
  (ValueError for a negative \<open>ns\<close>); \<^verbatim>\<open>prob = t_bursts[:, 2]\<close>,
  \<^verbatim>\<open>prob = prob / np.sum(prob)\<close>, \<^verbatim>\<open>n_bursts = len(prob)\<close>; one array of \<open>ns\<close>
  zeros for every grid parameter, \<open>age\<close> and \<open>phase\<close>.
\<close>

definition prepare :: "isogrid \<Rightarrow> gen_args \<Rightarrow> py_error + burst_aux \<times> (string \<rightharpoonup> real list)" where
  "prepare grid a =
     (let single_burst = (length (shape (t_bursts a)) = 1) in
      if ns a < 0 then Inl ValueError
      else bind_res
        (if \<not> single_burst then
           bind_res (column2 (t_bursts a)) (\<lambda>prob.
             Inr (MultiBurst (divide_by_sum prob) (hd (shape prob))))
         else Inr SingleBurst)
        (\<lambda>aux. Inr (aux,
           (\<lambda>param. if param \<in> set (params grid @ [''age'', ''phase''])
                     then Some (replicate (nat (ns a)) 0) else None))))"

subsection \<open>One pass of the loop body (lines 89-138)\<close>

text \<open>Lines 90-95: the true age.\<close>

definition draw_age :: "'s np_random \<Rightarrow> ndarray \<Rightarrow> burst_aux \<Rightarrow> 's \<Rightarrow> py_error + real \<times> 's" where
  "draw_age np tb aux s =
     (case aux of
        SingleBurst \<Rightarrow>
          bind_res (item (elems tb) 0) (\<lambda>t0.
          bind_res (item (elems tb) 1) (\<lambda>t1.
          case random_sample np s of (u, s') \<Rightarrow> Inr (t0 + (t1 - t0) * u, s')))
      | MultiBurst prob n_bursts \<Rightarrow>
          bind_res (choice np n_bursts prob s) (\<lambda>(i_burst, s').
          bind_res (item2 tb i_burst 0) (\<lambda>t0.
          bind_res (item2 tb i_burst 1) (\<lambda>t1.
          case random_sample np s' of (u, s'') \<Rightarrow> Inr (t0 + (t1 - t0) * u, s'')))))"

text \<open>
  Line 108: \<^verbatim>\<open>ns*(1-extra_giants)\<close>, on Python numbers: the float difference
  \<^verbatim>\<open>1-extra_giants\<close>, then the product of \<^verbatim>\<open>float(ns)\<close> with it, each rounded to
  float64. (An \<open>extra_giants\<close> passed as a Python int is the float of the same value
  here.)
\<close>

definition forcing_threshold :: "gen_args \<Rightarrow> real" where
  "forcing_threshold a = fl_mul (fl64 (real_of_int (ns a))) (fl_sub 1 (extra_giants a))"

text \<open>
  Lines 106-116: the minimum mass and the phase. The first branch is taken while the
  accepted count \<open>iv\<close> is below that threshold (\<^verbatim>\<open>if iv < ns*(1-extra_giants):\<close>; Python
  compares an int with a float exactly).
\<close>

definition min_mass ::
  "gen_args \<Rightarrow> isochrone \<Rightarrow> real list \<Rightarrow> nat \<Rightarrow> real \<Rightarrow> nat \<Rightarrow> py_error + real \<times> nat" where
  "min_mass a q logT sp feh_test i =
     (if real i < forcing_threshold a then
        (let Teffmin_dwarf = 4500 - 500 * feh_test in
         bind_res (argmin (map (\<lambda>t. \<bar>t - Teffmin_dwarf\<bar>) (temperatures (take sp logT))))
           (\<lambda>idx_dwarf.
         bind_res (lookup q ''Mini'') (\<lambda>mini.
         bind_res (item mini idx_dwarf) (\<lambda>m_min. Inr (m_min, 0)))))
      else
         bind_res (lookup q ''Mini'') (\<lambda>mini.
         bind_res (item mini sp) (\<lambda>m_min. Inr (m_min, 1))))"

text \<open>
  Line 118: \<^verbatim>\<open>np.random.rand()**(-1/(IMF_alpha-1))\<close> on Python floats:
  ZeroDivisionError for \<open>IMF_alpha = 1\<close> and for a zero base under a negative exponent,
  OverflowError for a power too large for a float64.
\<close>

definition imf_factor :: "real \<Rightarrow> real \<Rightarrow> py_error + real" where
  "imf_factor u alpha =
     (if alpha = 1 then Inl ZeroDivisionError
      else (let e = - 1 / (alpha - 1) in
            if u = 0 \<and> e < 0 then Inl ZeroDivisionError
            else if float64_overflow \<le> u powr e then Inl OverflowError
            else Inr (u powr e)))"

text \<open>\<^verbatim>\<open>np.where(cond)[0]\<close>: the indices at which the condition holds, increasing.\<close>

definition np_where :: "(real \<Rightarrow> bool) \<Rightarrow> real list \<Rightarrow> nat list" where
  "np_where P a = filter (\<lambda>i. P (a ! i)) [0..<length a]"

text \<open>\<^verbatim>\<open>data[name][i] = v\<close>.\<close>

definition store :: "(string \<rightharpoonup> real list) \<Rightarrow> string \<Rightarrow> nat \<Rightarrow> real \<Rightarrow> py_error + (string \<rightharpoonup> real list)" where
  "store d name i v =
     (case d name of
        None \<Rightarrow> Inl KeyError
      | Some col \<Rightarrow> if i < length col then Inr (d(name \<mapsto> col[i := v])) else Inl IndexError)"

text \<open>
  Lines 131-132:
  \<^verbatim>\<open>for param in params: data[param][iv] = (1-h)*q[param][im] + h*q[param][ip]\<close>,
  four float64 operations.
\<close>

definition interpolate :: "real \<Rightarrow> real \<Rightarrow> real \<Rightarrow> real" where
  "interpolate h vm vp = fl_add (fl_mul (fl_sub 1 h) vm) (fl_mul h vp)"

fun store_params ::
  "string list \<Rightarrow> isochrone \<Rightarrow> nat \<Rightarrow> nat \<Rightarrow> real \<Rightarrow> nat \<Rightarrow> (string \<rightharpoonup> real list)
     \<Rightarrow> py_error + (string \<rightharpoonup> real list)" where
  "store_params [] q im ip h i d = Inr d"
| "store_params (param # ps) q im ip h i d =
     bind_res (lookup q param) (\<lambda>col.
     bind_res (item col im) (\<lambda>vm.
     bind_res (item col ip) (\<lambda>vp.
     bind_res (store d param i (interpolate h vm vp)) (\<lambda>d'.
     store_params ps q im ip h i d'))))"

text \<open>
  Lines 126-129: \<^verbatim>\<open>im = np.where(q_mass <= m)[0][-1]\<close>,
  \<^verbatim>\<open>ip = np.where(q_mass > m)[0][0]\<close>, \<^verbatim>\<open>h = (m - q_mass[im]) / (q_mass[ip] - q_mass[im])\<close>,
  the two differences and the quotient each rounded to float64.
\<close>

definition bracket :: "real list \<Rightarrow> real \<Rightarrow> py_error + nat \<times> nat \<times> real" where
  "bracket q_mass m =
     bind_res (last_item (np_where (\<lambda>x. x \<le> m) q_mass)) (\<lambda>im.
     bind_res (item (np_where (\<lambda>x. x > m) q_mass) 0) (\<lambda>ip.
     Inr (im, ip, fl_div (fl_sub m (q_mass ! im)) (fl_sub (q_mass ! ip) (q_mass ! im)))))"

record 's sampler_state =
  iv :: nat
  ne :: nat
  phase_i :: nat
  data :: "string \<rightharpoonup> real list"
  rng :: 's

text \<open>
  The candidate of one pass: the track, the realised age, the mass floor, the phase, the
  drawn mass and the generator state after the three draws (lines 89-121).
\<close>

record 's candidate =
  cand_q :: isochrone
  cand_iso_age :: real
  cand_m_min :: real
  cand_phase :: nat
  cand_m :: real
  cand_rng :: 's

definition draw_candidate ::
  "'s np_random \<Rightarrow> isogrid \<Rightarrow> gen_args \<Rightarrow> burst_aux \<Rightarrow> nat \<Rightarrow> 's \<Rightarrow> py_error + 's candidate" where
  "draw_candidate np grid a aux i s =
     bind_res (draw_age np (t_bursts a) aux s) (\<lambda>(age, s1).
     bind_res (normal np (feh_mean a) (feh_disp a) s1) (\<lambda>(feh_test, s2).
     bind_res (get_isochrone grid 0 feh_test age) (\<lambda>(q, afa).
     bind_res (lookup q ''logT'') (\<lambda>logT.
     bind_res (split_ind logT) (\<lambda>sp.
     bind_res (min_mass a q logT sp feh_test i) (\<lambda>(m_min, ph).
     case random_sample np s2 of (u, s3) \<Rightarrow>
     bind_res (imf_factor u (IMF_alpha a)) (\<lambda>f.
     Inr \<lparr>cand_q = q, cand_iso_age = snd (snd afa), cand_m_min = m_min,
          cand_phase = ph, cand_m = m_min * f, cand_rng = s3\<rparr>)))))))"

text \<open>Lines 121-138: accept and interpolate, or count the draw as discarded.\<close>

definition accept_or_reject ::
  "isogrid \<Rightarrow> 's sampler_state \<Rightarrow> 's candidate \<Rightarrow> py_error + 's sampler_state" where
  "accept_or_reject grid st c =
     bind_res (lookup (cand_q c) ''Mini'') (\<lambda>q_mass.
     bind_res (last_item q_mass) (\<lambda>m_max.
     if cand_m c < m_max then
       bind_res (bracket q_mass (cand_m c)) (\<lambda>(im, ip, h).
       bind_res (store_params (params grid) (cand_q c) im ip h (iv st) (data st)) (\<lambda>d1.
       bind_res (store d1 ''age'' (iv st) (cand_iso_age c)) (\<lambda>d2.
       bind_res (store d2 ''phase'' (iv st) (real (cand_phase c))) (\<lambda>d3.
       Inr (st\<lparr>iv := iv st + 1, phase_i := cand_phase c, data := d3, rng := cand_rng c\<rparr>)))))
     else Inr (st\<lparr>ne := ne st + 1, phase_i := cand_phase c, rng := cand_rng c\<rparr>)))"

definition attempt ::
  "'s np_random \<Rightarrow> isogrid \<Rightarrow> gen_args \<Rightarrow> burst_aux \<Rightarrow> 's sampler_state \<Rightarrow> py_error + 's sampler_state" where
  "attempt np grid a aux st =
     bind_res (draw_candidate np grid a aux (iv st) (rng st)) (accept_or_reject grid st)"

subsection \<open>The loop and the whole function\<close>

text \<open>
  \<^verbatim>\<open>while iv < ns:\<close> has no iteration cap; a run that never leaves the loop is \<open>None\<close>.
\<close>

partial_function (option) sampling_loop ::
  "'s np_random \<Rightarrow> isogrid \<Rightarrow> gen_args \<Rightarrow> burst_aux \<Rightarrow> 's sampler_state
     \<Rightarrow> (py_error + 's sampler_state) option" where
  "sampling_loop np grid a aux st =
     (if int (iv st) < ns a then
        (case attempt np grid a aux st of
           Inl e \<Rightarrow> Some (Inl e)
         | Inr st' \<Rightarrow> sampling_loop np grid a aux st')
      else Some (Inr st))"

text \<open>
  The result: the two printed counts, what is written to the output file (of the
  configuration only \<open>ns\<close> is kept here; \<open>data\<close> holds one array per parameter, \<open>age\<close>
  and \<open>phase\<close>) and the generator state the call leaves behind.
\<close>

record synth_file =
  config_ns :: int
  file_data :: "string \<rightharpoonup> real list"

record 's gen_result =
  n_valid :: nat
  n_discarded :: nat
  outputfile :: synth_file
  rng_after :: 's

text \<open>
  \<open>g\<close> is the state of the process-wide generator at the call; line 55,
  \<^verbatim>\<open>np.random.seed(rand_seed)\<close>, replaces it.
\<close>

definition generate_synth_stars ::
  "'s np_random \<Rightarrow> isogrid \<Rightarrow> gen_args \<Rightarrow> 's \<Rightarrow> (py_error + 's gen_result) option" where
  "generate_synth_stars np grid a g =
     (let s0 = np_seed np (rand_seed a) in
      case prepare grid a of
        Inl e \<Rightarrow> Some (Inl e)
      | Inr (aux, data0) \<Rightarrow>
          map_option
            (map_sum id (\<lambda>st. \<lparr>n_valid = iv st, n_discarded = ne st,
                 outputfile = \<lparr>config_ns = ns a, file_data = data st\<rparr>,
                 rng_after = rng st\<rparr>))
            (sampling_loop np grid a aux
               \<lparr>iv = 0, ne = 0, phase_i = 0, data = data0, rng = s0\<rparr>))"

subsection \<open>make_synth_obs: drawing arrays\<close>

text \<open>
  A step of \<^verbatim>\<open>make_synth_obs\<close> takes the generator state and returns its result or
  exception together with the state it leaves, so that what has been drawn before a
  failure stays visible.
\<close>

definition bind_st ::
  "('s \<Rightarrow> (py_error + 'a) \<times> 's) \<Rightarrow> ('a \<Rightarrow> 's \<Rightarrow> (py_error + 'b) \<times> 's)
     \<Rightarrow> 's \<Rightarrow> (py_error + 'b) \<times> 's" where
  "bind_st m f s = (case m s of (Inl e, s') \<Rightarrow> (Inl e, s') | (Inr v, s') \<Rightarrow> f v s')"

definition pure_st :: "py_error + 'a \<Rightarrow> 's \<Rightarrow> (py_error + 'a) \<times> 's" where
  "pure_st r s = (r, s)"

text \<open>A numpy draw checks its arguments before it touches the generator.\<close>

definition draw_st :: "('s \<Rightarrow> py_error + 'a \<times> 's) \<Rightarrow> 's \<Rightarrow> (py_error + 'a) \<times> 's" where
  "draw_st f s = (case f s of Inl e \<Rightarrow> (Inl e, s) | Inr (v, s') \<Rightarrow> (Inr v, s'))"

fun gauss_n :: "'s np_random \<Rightarrow> nat \<Rightarrow> 's \<Rightarrow> real list \<times> 's" where
  "gauss_n np 0 s = ([], s)"
| "gauss_n np (Suc n) s =
     (case gauss np s of (z, s') \<Rightarrow> case gauss_n np n s' of (zs, s'') \<Rightarrow> (z # zs, s''))"

fun random_sample_n :: "'s np_random \<Rightarrow> nat \<Rightarrow> 's \<Rightarrow> real list \<times> 's" where
  "random_sample_n np 0 s = ([], s)"
| "random_sample_n np (Suc n) s =
     (case random_sample np s of (u, s') \<Rightarrow>
      case random_sample_n np n s' of (us, s'') \<Rightarrow> (u # us, s''))"

text \<open>\<^verbatim>\<open>np.random.normal(loc, scale, n)\<close> with a scalar scale.\<close>

definition normal_n :: "'s np_random \<Rightarrow> real \<Rightarrow> real \<Rightarrow> int \<Rightarrow> 's \<Rightarrow> py_error + real list \<times> 's" where
  "normal_n np loc scale n s =
     (if scale < 0 \<or> n < 0 then Inl ValueError
      else case gauss_n np (nat n) s of (zs, s') \<Rightarrow> Inr (map (\<lambda>z. loc + scale * z) zs, s'))"

text \<open>
  \<^verbatim>\<open>np.random.normal(loc, scales, n)\<close> with an array of \<open>n\<close> scales, one per entry (the
  only way the program calls it with an array).
\<close>

definition normal_arr :: "'s np_random \<Rightarrow> real \<Rightarrow> real list \<Rightarrow> int \<Rightarrow> 's \<Rightarrow> py_error + real list \<times> 's" where
  "normal_arr np loc scales n s =
     (if list_ex (\<lambda>x. x < 0) scales \<or> n < 0 \<or> length scales \<noteq> nat n then Inl ValueError
      else case gauss_n np (nat n) s of (zs, s') \<Rightarrow>
        Inr (map (\<lambda>(sc, z). loc + sc * z) (zip scales zs), s'))"

text \<open>\<^verbatim>\<open>np.random.choice(a, n, p=p)\<close> from an array \<open>a\<close>.\<close>

fun items :: "real list \<Rightarrow> nat list \<Rightarrow> py_error + real list" where
  "items a [] = Inr []"
| "items a (i # is) = bind_res (item a i) (\<lambda>x. bind_res (items a is) (\<lambda>xs. Inr (x # xs)))"

definition choice_n :: "'s np_random \<Rightarrow> real list \<Rightarrow> int \<Rightarrow> real list \<Rightarrow> 's \<Rightarrow> py_error + real list \<times> 's" where
  "choice_n np a n p s =
     (if \<not> p_accepted (length a) p \<or> n < 0 then Inl ValueError
      else case random_sample_n np (nat n) s of (us, s') \<Rightarrow>
        bind_res (items a (map (locate p) us)) (\<lambda>xs. Inr (xs, s')))"

text \<open>
  Elementwise arithmetic on one-dimensional arrays: equal lengths, or one operand of
  length 1 that is broadcast; ValueError otherwise.
\<close>

definition broadcast2 :: "(real \<Rightarrow> real \<Rightarrow> real) \<Rightarrow> real list \<Rightarrow> real list \<Rightarrow> py_error + real list" where
  "broadcast2 f x y =
     (if length x = length y then Inr (map (\<lambda>(a, b). f a b) (zip x y))
      else if length x = 1 then Inr (map (f (hd x)) y)
      else if length y = 1 then Inr (map (\<lambda>a. f a (hd y)) x)
      else Inl ValueError)"

definition np_add :: "real list \<Rightarrow> real list \<Rightarrow> py_error + real list" where
  "np_add = broadcast2 (+)"

definition np_multiply :: "real list \<Rightarrow> real list \<Rightarrow> py_error + real list" where
  "np_multiply = broadcast2 (*)"

subsection \<open>make_synth_obs (lines 160-246)\<close>

definition known_filters :: "string list" where
  "known_filters =
     [''J'', ''H'', ''Ks'',
      ''u'', ''v'', ''g'', ''r'', ''i'', ''z'',
      ''G'', ''G_BPbr'', ''G_BPft'', ''G_RP'']"

text \<open>\<^verbatim>\<open>plx_distribution\<close>: \<^verbatim>\<open>'SN'\<close>, \<^verbatim>\<open>'Skymapper'\<close> or a number.\<close>

datatype plx_distribution = SN | Skymapper | Value real

text \<open>
  \<^verbatim>\<open>obs_params\<close> is a dictionary, here its items in order (the keys are distinct).
  Line 188: \<^verbatim>\<open>obs_mags = list(set(known_filters) & set(obs_params))\<close>, used for
  membership only.
\<close>

definition obs_mags_of :: "(string \<times> real) list \<Rightarrow> string list" where
  "obs_mags_of obs_params = filter (\<lambda>k. k \<in> set known_filters) (map fst obs_params)"

text \<open>
  Lines 197-206: the true values. \<open>plx\<close> is skipped, \<open>logT\<close> is stored as \<open>10**logT\<close>,
  a name missing from the file is a KeyError.
\<close>

fun load_true_data ::
  "(string \<rightharpoonup> real list) \<Rightarrow> string list \<Rightarrow> (string \<rightharpoonup> real list)
     \<Rightarrow> py_error + (string \<rightharpoonup> real list)" where
  "load_true_data synth_data [] true_data = Inr true_data"
| "load_true_data synth_data (oparam # rest) true_data =
     (if oparam = ''plx'' then load_true_data synth_data rest true_data
      else case synth_data oparam of
        None \<Rightarrow> Inl KeyError
      | Some col \<Rightarrow>
          load_true_data synth_data rest
            (true_data(oparam \<mapsto> (if oparam = ''logT'' then map (\<lambda>x. 10 powr x) col else col))))"

text \<open>Lines 212-219: the true parallaxes.\<close>

definition plx_true_of :: "'s np_random \<Rightarrow> plx_distribution \<Rightarrow> int \<Rightarrow> 's \<Rightarrow> (py_error + real list) \<times> 's" where
  "plx_true_of np plxd n =
     (case plxd of
        SN \<Rightarrow> bind_st (draw_st (normal_n np 0.5637 0.8767 n)) (\<lambda>x. pure_st (Inr (map exp x)))
      | Skymapper \<Rightarrow> bind_st (draw_st (normal_n np (- 0.255) 0.656 n)) (\<lambda>x. pure_st (Inr (map exp x)))
      | Value v \<Rightarrow> pure_st (if n < 0 then Inl ValueError else Inr (map (\<lambda>one. v * one) (replicate (nat n) 1))))"

text \<open>
  Line 224: \<^verbatim>\<open>mu_true = 5 * np.log10(100/plx_true)\<close>. (For a parallax that is not
  positive numpy gives nan or an infinity, which a real number does not show.)
\<close>

definition mu_true_of :: "real list \<Rightarrow> real list" where
  "mu_true_of plx_true = map (\<lambda>p. 5 * log 10 (100 / p)) plx_true"

text \<open>Lines 225-227: \<^verbatim>\<open>app_mags_true[mag] = true_data[mag] + mu_true\<close>.\<close>

fun app_mags_true_of ::
  "string list \<Rightarrow> (string \<rightharpoonup> real list) \<Rightarrow> real list \<Rightarrow> (string \<rightharpoonup> real list)
     \<Rightarrow> py_error + (string \<rightharpoonup> real list)" where
  "app_mags_true_of [] true_data mu_true app = Inr app"
| "app_mags_true_of (mag # rest) true_data mu_true app =
     bind_res (lookup true_data mag) (\<lambda>tv.
     bind_res (np_add tv mu_true) (\<lambda>v.
     app_mags_true_of rest true_data mu_true (app(mag \<mapsto> v))))"

text \<open>\<^verbatim>\<open>np.arange(0.02, 0.21, 0.01)\<close>: the 19 values 0.02, 0.03, ..., 0.20.\<close>

definition plx_rel_err_interval :: "real list" where
  "plx_rel_err_interval = map (\<lambda>k. 0.02 + real k * 0.01) [0..<19]"

definition plx_rel_err_prob :: "real list" where
  "plx_rel_err_prob =
     (let prob = map (\<lambda>x. exp (- 14 * x)) plx_rel_err_interval
      in map (\<lambda>p. p / sum_list prob) prob)"

text \<open>Lines 234-246: the observed column of one parameter.\<close>

definition observe ::
  "'s np_random \<Rightarrow> plx_distribution \<Rightarrow> int \<Rightarrow> string list \<Rightarrow> (string \<rightharpoonup> real list)
     \<Rightarrow> (string \<rightharpoonup> real list) \<Rightarrow> string \<Rightarrow> real \<Rightarrow> 's \<Rightarrow> (py_error + real list) \<times> 's" where
  "observe np plxd n obs_mags true_data app_mags_true oparam sigma =
     (if oparam \<in> set obs_mags then
        bind_st (pure_st (lookup app_mags_true oparam)) (\<lambda>tv.
        bind_st (draw_st (normal_n np 0 sigma n)) (\<lambda>noise.
        pure_st (np_add tv noise)))
      else if oparam = ''plx'' \<and> plxd = Skymapper then
        bind_st (draw_st (choice_n np plx_rel_err_interval n plx_rel_err_prob)) (\<lambda>plx_rel_err.
        bind_st (pure_st (lookup true_data oparam)) (\<lambda>tv.
        bind_st (pure_st (np_multiply tv plx_rel_err)) (\<lambda>scales.
        bind_st (draw_st (normal_arr np 0 scales n)) (\<lambda>noise.
        pure_st (np_add tv noise)))))
      else
        bind_st (pure_st (lookup true_data oparam)) (\<lambda>tv.
        bind_st (draw_st (normal_n np 0 sigma n)) (\<lambda>noise.
        pure_st (np_add tv noise))))"

fun observe_all ::
  "'s np_random \<Rightarrow> plx_distribution \<Rightarrow> int \<Rightarrow> string list \<Rightarrow> (string \<rightharpoonup> real list)
     \<Rightarrow> (string \<rightharpoonup> real list) \<Rightarrow> (string \<times> real) list \<Rightarrow> (string \<rightharpoonup> real list)
     \<Rightarrow> 's \<Rightarrow> (py_error + (string \<rightharpoonup> real list)) \<times> 's" where
  "observe_all np plxd n obs_mags true_data app_mags_true [] obs_data = pure_st (Inr obs_data)"
| "observe_all np plxd n obs_mags true_data app_mags_true ((oparam, sigma) # rest) obs_data =
     bind_st (observe np plxd n obs_mags true_data app_mags_true oparam sigma) (\<lambda>col.
     observe_all np plxd n obs_mags true_data app_mags_true rest (obs_data(oparam \<mapsto> col)))"

text \<open>
  Lines 209-227: when \<open>plx\<close> is requested, the true parallaxes join the true values and
  the true apparent magnitudes are derived.
\<close>

definition true_values ::
  "'s np_random \<Rightarrow> plx_distribution \<Rightarrow> int \<Rightarrow> (string \<times> real) list \<Rightarrow> (string \<rightharpoonup> real list)
     \<Rightarrow> 's \<Rightarrow> (py_error + (string \<rightharpoonup> real list) \<times> (string \<rightharpoonup> real list)) \<times> 's" where
  "true_values np plxd n obs_params true_data =
     (if ''plx'' \<in> set (map fst obs_params) then
        bind_st (plx_true_of np plxd n) (\<lambda>plx_true.
        pure_st (bind_res
          (app_mags_true_of (obs_mags_of obs_params) (true_data(''plx'' \<mapsto> plx_true))
             (mu_true_of plx_true) Map.empty)
          (\<lambda>app. Inr (true_data(''plx'' \<mapsto> plx_true), app))))
      else pure_st (Inr (true_data, Map.empty)))"

text \<open>
  The function up to \<open>obs_data\<close>. The assembly of the table with its uncertainty columns
  and the writing of the text file (lines 248-258) draw nothing and are left out.
  \<open>g\<close> is the state of the process-wide generator at the call; nothing seeds it here.
\<close>

definition make_synth_obs ::
  "'s np_random \<Rightarrow> synth_file \<Rightarrow> (string \<times> real) list \<Rightarrow> plx_distribution \<Rightarrow> 's
     \<Rightarrow> (py_error + (string \<rightharpoonup> real list)) \<times> 's" where
  "make_synth_obs np synthfile obs_params plxd =
     (if obs_mags_of obs_params \<noteq> [] \<and> ''plx'' \<notin> set (map fst obs_params)
      then pure_st (Inl ValueError)
      else
        bind_st (pure_st (load_true_data (file_data synthfile) (map fst obs_params) Map.empty))
          (\<lambda>true_data.
        bind_st (true_values np plxd (config_ns synthfile) obs_params true_data)
          (\<lambda>(true_data, app_mags_true).
        observe_all np plxd (config_ns synthfile) (obs_mags_of obs_params) true_data
          app_mags_true obs_params Map.empty)))"

subsection \<open>Concrete inputs\<close>

text \<open>
  A generator whose every uniform draw is \<open>u\<close> and every normal draw is \<open>z\<close>; its
  state counts the draws.
\<close>

definition const_rng :: "real \<Rightarrow> real \<Rightarrow> nat np_random" where
  "const_rng u z =
     \<lparr>np_seed = (\<lambda>seed. 0), random_sample = (\<lambda>s. (u, Suc s)), gauss = (\<lambda>s. (z, Suc s))\<rparr>"

text \<open>A grid that answers every query with one track of four nodes.\<close>

definition toy_track :: isochrone where
  "toy_track = [''logT'' \<mapsto> [3, 2, 1, 0], ''Mini'' \<mapsto> [1, 2, 3, 4]]"

definition toy_grid :: isogrid where
  "toy_grid =
     \<lparr>params = [''logT'', ''Mini''],
      get_isochrone = (\<lambda>alpha feh age. Inr (toy_track, (alpha, feh, age)))\<rparr>"

text \<open>A single burst from 1 to 10 Gyr, \<open>IMF_alpha = 2\<close>.\<close>

definition toy_args :: "int \<Rightarrow> real \<Rightarrow> gen_args" where
  "toy_args n g =
     \<lparr>t_bursts = \<lparr>shape = [3], elems = [1, 10, 1]\<rparr>, ns = n, feh_mean = 0, feh_disp = 1 / 10,
      IMF_alpha = 2, rand_seed = 1, extra_giants = g\<rparr>"

text \<open>The state in which the loop starts on the toy grid, for \<open>n\<close> stars.\<close>

definition toy_state :: "nat \<Rightarrow> nat sampler_state" where
  "toy_state n =
     \<lparr>iv = 0, ne = 0, phase_i = 0,
      data = (\<lambda>param. if param \<in> set [''logT'', ''Mini'', ''age'', ''phase'']
                       then Some (replicate n 0) else None),
      rng = 0\<rparr>"

text \<open>The float64 values of the Python literals \<^verbatim>\<open>0.2\<close> and \<^verbatim>\<open>0.3\<close>.\<close>

definition double_0_2 :: real where
  "double_0_2 = 3602879701896397 / 2 ^ 54"

definition double_0_3 :: real where
  "double_0_3 = 5404319552844595 / 2 ^ 54"

text \<open>
  A track of constant metallicity: the masses are 0.5, \<^verbatim>\<open>0.8\<close>, \<^verbatim>\<open>0.9\<close> and 1, the
  metallicity of every node is \<^verbatim>\<open>0.02\<close> (the float64 values of these literals), and a
  candidate of mass \<^verbatim>\<open>0.83\<close> on it.
\<close>

definition flat_track :: isochrone where
  "flat_track =
     [''Mini'' \<mapsto> [1 / 2, 3602879701896397 / 2 ^ 52, 8106479329266893 / 2 ^ 53, 1],
      ''FeHini'' \<mapsto> replicate 4 (5764607523034235 / 2 ^ 58)]"

definition flat_grid :: isogrid where
  "flat_grid =
     \<lparr>params = [''Mini'', ''FeHini''],
      get_isochrone = (\<lambda>alpha feh age. Inr (flat_track, (alpha, feh, age)))\<rparr>"

definition flat_state :: "nat sampler_state" where
  "flat_state =
     \<lparr>iv = 0, ne = 0, phase_i = 0,
      data = (\<lambda>param. if param \<in> set [''Mini'', ''FeHini'', ''age'', ''phase'']
                       then Some (replicate 1 0) else None),
      rng = 0\<rparr>"

definition flat_candidate :: "nat candidate" where
  "flat_candidate =
     \<lparr>cand_q = flat_track, cand_iso_age = 5, cand_m_min = 1 / 2, cand_phase = 0,
      cand_m = 7475975381435023 / 2 ^ 53, cand_rng = 3\<rparr>"




text \<open>The toy arguments with a three-dimensional burst array of shape (1, 3, 1).\<close>

definition cube_args :: "int \<Rightarrow> gen_args" where
  "cube_args n = (toy_args n 0)\<lparr>t_bursts := \<lparr>shape = [1, 3, 1], elems = [1, 10, 1]\<rparr>\<rparr>"

subsection \<open>Notions used to state and prove the properties\<close>

text \<open>
  The loop cut off after \<open>k\<close> passes of its body: the state then reached, or the
  exception of the pass that failed.
\<close>

fun run_passes ::
  "'s np_random \<Rightarrow> isogrid \<Rightarrow> gen_args \<Rightarrow> burst_aux \<Rightarrow> nat \<Rightarrow> 's sampler_state
     \<Rightarrow> py_error + 's sampler_state" where
  "run_passes np grid a aux 0 st = Inr st"
| "run_passes np grid a aux (Suc k) st =
     (if int (iv st) < ns a
      then bind_res (attempt np grid a aux st) (run_passes np grid a aux k)
      else Inr st)"

text \<open>Writing row \<open>i\<close> keeps the keys, the lengths and every other row.\<close>

definition rows_kept :: "nat \<Rightarrow> (string \<rightharpoonup> real list) \<Rightarrow> (string \<rightharpoonup> real list) \<Rightarrow> bool" where
  "rows_kept i d d' \<longleftrightarrow>
     (\<forall>name. rel_option (\<lambda>col col'. length col' = length col \<and> (\<forall>k. k \<noteq> i \<longrightarrow> col' ! k = col ! k))
        (d name) (d' name))"

text \<open>
  How far the four roundings of an interpolation between \<open>vm\<close> and \<open>vp\<close> can carry
  its result away from the exact value.
\<close>

definition rounding_slack :: "real \<Rightarrow> real \<Rightarrow> real" where
  "rounding_slack vm vp = 6 * max \<bar>vm\<bar> \<bar>vp\<bar> / 2 ^ 53 + 1 / 2 ^ 1073"

text \<open>
  What holds of the loop state before every pass: at most \<open>ns\<close> stars are accepted,
  every array has \<open>ns\<close> entries, and the phase of each accepted star \<open>k\<close> tells whether
  \<open>k\<close> was below the forcing threshold.
\<close>

definition sampler_inv :: "gen_args \<Rightarrow> 's sampler_state \<Rightarrow> bool" where
  "sampler_inv a st \<longleftrightarrow>
     int (iv st) \<le> ns a
     \<and> (\<forall>name col. data st name = Some col \<longrightarrow> length col = nat (ns a))
     \<and> (\<exists>col. data st ''phase'' = Some col
          \<and> (\<forall>k<iv st. col ! k = (if real k < forcing_threshold a then 0 else 1)))"

section \<open>Properties\<close>

subsection \<open>Sequencing\<close>

lemma bind_res_Inr_iff:
  "bind_res r f = Inr y \<longleftrightarrow> (\<exists>v. r = Inr v \<and> f v = Inr y)"
  by (cases r) (simp_all add: bind_res_def)

lemma bind_res_Inl [simp]: "bind_res (Inl e) f = Inl e"
  by (simp add: bind_res_def)

lemma bind_res_Inr [simp]: "bind_res (Inr v) f = f v"
  by (simp add: bind_res_def)

subsection \<open>Rounding to float64\<close>

lemma round_half_even_of_int [simp]: "round_half_even (of_int n) = n"
  by (simp add: round_half_even_def)

lemma round_half_even_cases:
  "round_half_even q = \<lfloor>q\<rfloor> \<or> round_half_even q = \<lfloor>q\<rfloor> + 1"
  by (simp add: round_half_even_def Let_def)

lemma round_half_even_ge: "of_int n \<le> q \<Longrightarrow> n \<le> round_half_even q"
proof -
  assume "of_int n \<le> q"
  then have "n \<le> \<lfloor>q\<rfloor>" by (simp add: le_floor_iff)
  with round_half_even_cases [of q] show ?thesis by auto
qed

lemma round_half_even_le: "q \<le> of_int n \<Longrightarrow> round_half_even q \<le> n"
proof (cases "q = of_int n")
  case True
  then show ?thesis by simp
next
  case False
  assume "q \<le> of_int n"
  with False have "q < of_int n" by simp
  then have "\<lfloor>q\<rfloor> < n" by (simp add: floor_less_iff)
  with round_half_even_cases [of q] show ?thesis by auto
qed

lemma round_half_even_mono: "p \<le> q \<Longrightarrow> round_half_even p \<le> round_half_even q"
proof (cases "\<lfloor>p\<rfloor> = \<lfloor>q\<rfloor>")
  case True
  assume "p \<le> q"
  with True show ?thesis by (auto simp: round_half_even_def Let_def)
next
  case False
  assume "p \<le> q"
  then have "\<lfloor>p\<rfloor> \<le> \<lfloor>q\<rfloor>" by (rule floor_mono)
  with False have "\<lfloor>p\<rfloor> + 1 \<le> \<lfloor>q\<rfloor>" by simp
  with round_half_even_cases [of p] round_half_even_cases [of q] show ?thesis by auto
qed

lemma two_powi_split: "(2::real) powi (a + int n) = 2 powi a * 2 ^ n"
  by (simp add: power_int_add)

lemma floor_log2_iff:
  assumes "0 < x"
  shows "\<lfloor>log 2 x\<rfloor> = k \<longleftrightarrow> 2 powi k \<le> x \<and> x < 2 powi (k + 1)"
proof -
  have a: "2 powr real_of_int k = (2::real) powi k"
    and b: "2 powr real_of_int (k + 1) = (2::real) powi (k + 1)"
    by (rule powr_real_of_int'; simp)+
  show ?thesis
    unfolding a [symmetric] b [symmetric]
    by (rule floor_log_eq_powr_iff) (use assms in simp_all)
qed

lemma float64_exponent_upper:
  assumes "x \<noteq> 0"
  shows "\<bar>x\<bar> < 2 powi (float64_exponent x + 1)"
proof -
  from assms have pos: "0 < \<bar>x\<bar>" by simp
  have "\<bar>x\<bar> < 2 powi (\<lfloor>log 2 \<bar>x\<bar>\<rfloor> + 1)"
    using floor_log2_iff [OF pos, of "\<lfloor>log 2 \<bar>x\<bar>\<rfloor>"] by simp
  also have "\<dots> \<le> 2 powi (float64_exponent x + 1)"
    by (rule power_int_increasing) (simp_all add: float64_exponent_def)
  finally show ?thesis .
qed

lemma float64_exponent_lower:
  assumes "x \<noteq> 0" "- 1022 < float64_exponent x"
  shows "2 powi float64_exponent x \<le> \<bar>x\<bar>"
proof -
  from assms have pos: "0 < \<bar>x\<bar>" by simp
  from assms(2) have e: "float64_exponent x = \<lfloor>log 2 \<bar>x\<bar>\<rfloor>"
    by (simp add: float64_exponent_def max_def split: if_splits)
  have "2 powi \<lfloor>log 2 \<bar>x\<bar>\<rfloor> \<le> \<bar>x\<bar>"
    using floor_log2_iff [OF pos, of "\<lfloor>log 2 \<bar>x\<bar>\<rfloor>"] by simp
  with e show ?thesis by simp
qed

lemma float64_exponent_eqI:
  assumes "2 powi e \<le> \<bar>x\<bar>" "\<bar>x\<bar> < 2 powi (e + 1)" "- 1022 \<le> e"
  shows "float64_exponent x = e"
proof -
  have "0 < (2::real) powi e" by simp
  with assms(1) have pos: "0 < \<bar>x\<bar>" by linarith
  have "\<lfloor>log 2 \<bar>x\<bar>\<rfloor> = e"
    using floor_log2_iff [OF pos, of e] assms(1,2) by simp
  with assms(3) show ?thesis by (simp add: float64_exponent_def)
qed

lemma fl64_zero [simp]: "fl64 0 = 0"
  by (simp add: fl64_def)

lemma fl64_eval:
  assumes "2 powi e \<le> \<bar>x\<bar>" "\<bar>x\<bar> < 2 powi (e + 1)" "- 1022 \<le> e"
  shows "fl64 x = 2 powi (e - 52) * of_int (round_half_even (x / 2 powi (e - 52)))"
proof -
  have "0 < (2::real) powi e" by simp
  with assms(1) have "0 < \<bar>x\<bar>" by linarith
  then have "x \<noteq> 0" by simp
  with float64_exponent_eqI [OF assms] show ?thesis by (simp add: fl64_def Let_def)
qed

lemma fl64_nonneg: "0 \<le> x \<Longrightarrow> 0 \<le> fl64 x"
proof (cases "x = 0")
  case False
  assume "0 \<le> x"
  then have "of_int 0 \<le> x / 2 powi (float64_exponent x - 52)" by simp
  then have "0 \<le> round_half_even (x / 2 powi (float64_exponent x - 52))"
    by (rule round_half_even_ge)
  with False show ?thesis by (simp add: fl64_def Let_def)
qed simp

lemma fl64_exact:
  assumes n: "\<bar>n\<bar> < 2 ^ 53" and k: "- 1074 \<le> k"
  shows "fl64 (of_int n * 2 powi k) = of_int n * 2 powi k"
proof (cases "n = 0")
  case False
  define x where "x = real_of_int n * 2 powi k"
  define e where "e = float64_exponent x"
  from False have x0: "x \<noteq> 0" by (simp add: x_def)
  have le: "e \<le> k + 52"
  proof (cases "- 1022 < e")
    case True
    from float64_exponent_lower [OF x0] True have "2 powi e \<le> \<bar>x\<bar>" by (simp add: e_def)
    also have "\<bar>x\<bar> = real_of_int \<bar>n\<bar> * 2 powi k" by (simp add: x_def abs_mult)
    also have "\<dots> < 2 ^ 53 * 2 powi k"
    proof -
      from n have "real_of_int \<bar>n\<bar> < real_of_int (2 ^ 53)" by (simp only: of_int_less_iff)
      then show ?thesis by simp
    qed
    also have "\<dots> = 2 powi (k + 53)" using two_powi_split [of k 53] by simp
    finally have "(2::real) powi e < 2 powi (k + 53)" .
    then have "e < k + 53"
      by (metis power_int_increasing not_le one_le_numeral)
    then show ?thesis by simp
  next
    case False
    then have "e = - 1022"
      by (simp add: e_def float64_exponent_def max_def split: if_splits)
    with k show ?thesis by simp
  qed
  define d where "d = nat (k + 52 - e)"
  have kd: "k = (e - 52) + int d" using le by (simp add: d_def)
  have pk: "(2::real) powi k = 2 powi (e - 52) * 2 ^ d"
    using two_powi_split [of "e - 52" d] kd by simp
  have q: "x / 2 powi (e - 52) = of_int (n * 2 ^ d)" by (simp add: x_def pk)
  have "fl64 x = 2 powi (e - 52) * of_int (round_half_even (x / 2 powi (e - 52)))"
    using x0 by (simp add: fl64_def Let_def e_def)
  also have "\<dots> = 2 powi (e - 52) * of_int (n * 2 ^ d)"
    by (simp only: q round_half_even_of_int)
  also have "\<dots> = x" by (simp add: x_def pk)
  finally show ?thesis by (simp add: x_def)
qed simp

lemma fl64_of_int: "\<bar>n\<bar> < 2 ^ 53 \<Longrightarrow> fl64 (of_int n) = of_int n"
  using fl64_exact [of n 0] by simp

lemma fl64_dyadic: "\<bar>n\<bar> < 2 ^ 53 \<Longrightarrow> j \<le> 1074 \<Longrightarrow> fl64 (of_int n / 2 ^ j) = of_int n / 2 ^ j"
  using fl64_exact [of n "- int j"] by (simp add: power_int_minus field_simps)

lemma fl64_one [simp]: "fl64 1 = 1"
  using fl64_of_int [of 1] by simp

lemma fl64_upper:
  assumes "0 < x"
  shows "fl64 x \<le> 2 powi (float64_exponent x + 1)"
proof -
  let ?e = "float64_exponent x"
  let ?u = "(2::real) powi (?e - 52)"
  have u: "0 < ?u" by simp
  from assms have x0: "x \<noteq> 0" by simp
  from float64_exponent_upper [OF x0] assms have "x < 2 powi (?e + 1)" by simp
  also have "\<dots> = ?u * 2 ^ 53"
    using two_powi_split [of "?e - 52" 53] by (simp add: algebra_simps)
  finally have "x / ?u \<le> of_int (2 ^ 53)" using u by (simp add: field_simps)
  then have "round_half_even (x / ?u) \<le> 2 ^ 53" by (rule round_half_even_le)
  then have "real_of_int (round_half_even (x / ?u)) \<le> real_of_int (2 ^ 53)"
    by (simp only: of_int_le_iff)
  then have "real_of_int (round_half_even (x / ?u)) \<le> 2 ^ 53" by simp
  then have "?u * real_of_int (round_half_even (x / ?u)) \<le> ?u * 2 ^ 53"
    using u by simp
  also have "?u * 2 ^ 53 = 2 powi (?e + 1)"
    using two_powi_split [of "?e - 52" 53] by (simp add: algebra_simps)
  finally show ?thesis using x0 by (simp add: fl64_def Let_def)
qed

lemma fl64_lower:
  assumes "0 < x" "- 1022 < float64_exponent x"
  shows "2 powi float64_exponent x \<le> fl64 x"
proof -
  let ?e = "float64_exponent x"
  let ?u = "(2::real) powi (?e - 52)"
  have u: "0 < ?u" by simp
  from assms have x0: "x \<noteq> 0" by simp
  have eq: "(2::real) powi ?e = ?u * 2 ^ 52"
    using two_powi_split [of "?e - 52" 52] by simp
  from float64_exponent_lower [OF x0 assms(2)] assms have "?u * 2 ^ 52 \<le> x" by (simp add: eq)
  then have "of_int (2 ^ 52) \<le> x / ?u" using u by (simp add: field_simps)
  then have "2 ^ 52 \<le> round_half_even (x / ?u)" by (rule round_half_even_ge)
  then have "real_of_int (2 ^ 52) \<le> real_of_int (round_half_even (x / ?u))"
    by (simp only: of_int_le_iff)
  then have "2 ^ 52 \<le> real_of_int (round_half_even (x / ?u))" by simp
  then have "?u * 2 ^ 52 \<le> ?u * real_of_int (round_half_even (x / ?u))"
    using u by simp
  then show ?thesis using x0 eq by (simp add: fl64_def Let_def)
qed

lemma float64_exponent_mono:
  assumes "0 < x" "x \<le> y"
  shows "float64_exponent x \<le> float64_exponent y"
proof -
  from assms have "log 2 \<bar>x\<bar> \<le> log 2 \<bar>y\<bar>" by simp
  then have "\<lfloor>log 2 \<bar>x\<bar>\<rfloor> \<le> \<lfloor>log 2 \<bar>y\<bar>\<rfloor>" by (rule floor_mono)
  then show ?thesis by (simp add: float64_exponent_def)
qed

lemma fl64_mono:
  assumes "0 \<le> x" "x \<le> y"
  shows "fl64 x \<le> fl64 y"
proof (cases "x = 0")
  case True
  with assms fl64_nonneg [of y] show ?thesis by simp
next
  case False
  with assms have x: "0 < x" and y: "0 < y" by simp_all
  let ?ex = "float64_exponent x" and ?ey = "float64_exponent y"
  from float64_exponent_mono [OF x assms(2)] have le: "?ex \<le> ?ey" .
  show ?thesis
  proof (cases "?ex = ?ey")
    case True
    let ?u = "(2::real) powi (?ey - 52)"
    have u: "0 < ?u" by simp
    from assms(2) u have "x / ?u \<le> y / ?u" by (simp add: divide_right_mono)
    then have "round_half_even (x / ?u) \<le> round_half_even (y / ?u)"
      by (rule round_half_even_mono)
    then have "?u * real_of_int (round_half_even (x / ?u))
        \<le> ?u * real_of_int (round_half_even (y / ?u))" using u by simp
    with True x y show ?thesis by (simp add: fl64_def Let_def)
  next
    case False
    with le have lt: "?ex + 1 \<le> ?ey" by simp
    have "- 1022 \<le> ?ex" by (simp add: float64_exponent_def)
    with lt have n: "- 1022 < ?ey" by simp
    have "fl64 x \<le> 2 powi (?ex + 1)" by (rule fl64_upper [OF x])
    also have "\<dots> \<le> 2 powi ?ey" by (rule power_int_increasing [OF lt]) simp
    also have "\<dots> \<le> fl64 y" by (rule fl64_lower [OF y n])
    finally show ?thesis .
  qed
qed

lemma fl64_le_one: "0 \<le> x \<Longrightarrow> x \<le> 1 \<Longrightarrow> fl64 x \<le> 1"
  using fl64_mono [of x 1] by simp

lemma fl_weight:
  assumes "a \<le> m" "m \<le> b"
  shows "0 \<le> fl_div (fl_sub m a) (fl_sub b a) \<and> fl_div (fl_sub m a) (fl_sub b a) \<le> 1"
proof -
  let ?N = "fl64 (m - a)" and ?D = "fl64 (b - a)"
  from assms have N0: "0 \<le> ?N" by (simp add: fl64_nonneg)
  from assms have ND: "?N \<le> ?D" by (intro fl64_mono) simp_all
  from N0 ND have q0: "0 \<le> ?N / ?D" by simp
  have q1: "?N / ?D \<le> 1"
  proof (cases "?D = 0")
    case False
    with N0 ND have "0 < ?D" by simp
    with ND show ?thesis by simp
  qed simp
  from fl64_nonneg [OF q0] fl64_le_one [OF q0 q1] show ?thesis
    by (simp add: fl_div_def fl_sub_def)
qed

lemma round_half_even_error: "\<bar>real_of_int (round_half_even q) - q\<bar> \<le> 1 / 2"
proof -
  have "0 \<le> q - of_int \<lfloor>q\<rfloor>" "q - of_int \<lfloor>q\<rfloor> < 1" by linarith+
  then show ?thesis by (auto simp: round_half_even_def Let_def)
qed

lemma fl64_error_cases:
  "\<bar>fl64 x - x\<bar> \<le> \<bar>x\<bar> / 2 ^ 53 \<or> \<bar>fl64 x - x\<bar> \<le> 1 / 2 ^ 1075"
proof (cases "x = 0")
  case False
  define e where "e = float64_exponent x"
  define u where "u = (2::real) powi (e - 52)"
  have u: "0 < u" by (simp add: u_def)
  have fl: "fl64 x = u * of_int (round_half_even (x / u))"
    using False by (simp add: fl64_def Let_def e_def u_def)
  have "fl64 x - x = u * (of_int (round_half_even (x / u)) - x / u)"
    using u by (simp add: fl algebra_simps)
  then have "\<bar>fl64 x - x\<bar> = u * \<bar>of_int (round_half_even (x / u)) - x / u\<bar>"
    using u by (simp add: abs_mult)
  also have "\<dots> \<le> u * (1 / 2)"
    using u round_half_even_error [of "x / u"] by (intro mult_left_mono) simp_all
  finally have err: "\<bar>fl64 x - x\<bar> \<le> u / 2" by simp
  have ge: "- 1022 \<le> e" by (simp add: e_def float64_exponent_def)
  show ?thesis
  proof (cases "- 1022 < e")
    case True
    from float64_exponent_lower [OF False] True have "2 powi e \<le> \<bar>x\<bar>" by (simp add: e_def)
    moreover have "(2::real) powi e = u * 2 ^ 52"
      using two_powi_split [of "e - 52" 52] by (simp add: u_def)
    ultimately have "u * 2 ^ 52 \<le> \<bar>x\<bar>" by simp
    then have "u / 2 \<le> \<bar>x\<bar> / 2 ^ 53" by (simp add: field_simps)
    with err show ?thesis by simp
  next
    case False
    with ge have "e = - 1022" by simp
    then have "u = 1 / 2 ^ 1074" by (simp add: u_def power_int_minus field_simps)
    with err show ?thesis by simp
  qed
qed simp

lemma fl64_error_sum: "\<bar>fl64 x - x\<bar> \<le> \<bar>x\<bar> / 2 ^ 53 + 1 / 2 ^ 1075"
proof -
  have "0 \<le> \<bar>x\<bar> / 2 ^ 53" "(0::real) \<le> 1 / 2 ^ 1075" by simp_all
  with fl64_error_cases [of x] show ?thesis by linarith
qed

lemma fl64_error_unit:
  assumes "\<bar>x\<bar> \<le> 1"
  shows "\<bar>fl64 x - x\<bar> \<le> 1 / 2 ^ 53"
proof -
  from assms have "\<bar>x\<bar> / 2 ^ 53 \<le> 1 / 2 ^ 53" by (simp add: divide_right_mono)
  moreover have "(1::real) / 2 ^ 1075 \<le> 1 / 2 ^ 53"
    by (intro divide_left_mono power_increasing) simp_all
  ultimately show ?thesis using fl64_error_cases [of x] by linarith
qed

lemma fl64_small_dyadics:
  "fl64 (1 / 2) = 1 / 2" "fl64 (3 / 2) = 3 / 2" "fl64 (5 / 2) = 5 / 2" "fl64 2 = 2" "fl64 3 = 3"
  using fl64_dyadic [of 1 1] fl64_dyadic [of 3 1] fl64_dyadic [of 5 1]
    fl64_of_int [of 2] fl64_of_int [of 3]
  by simp_all

subsection \<open>The split index\<close>

lemma length_diff: "length (diff a) = length a - 1"
  by (simp add: diff_def)

lemma nth_diff: "i < length a - 1 \<Longrightarrow> diff a ! i = a ! Suc i - a ! i"
  by (simp add: diff_def nth_tl)

lemma set_argsort: "set (argsort a) = {..<length a}"
  by (auto simp: argsort_def)

lemma distinct_argsort: "distinct (argsort a)"
  by (simp add: argsort_def)

lemma length_argsort: "length (argsort a) = length a"
  by (simp add: argsort_def)

lemma sorted_argsort: "sorted (map (\<lambda>i. a ! i) (argsort a))"
  by (simp add: argsort_def)

lemma take_argsort_least:
  assumes "i \<in> set (take k (argsort a))" and "j < length a" and "j \<notin> set (take k (argsort a))"
  shows "a ! i \<le> a ! j"
proof -
  have "j \<in> set (argsort a)" using assms(2) by (simp add: set_argsort)
  then have j: "j \<in> set (drop k (argsort a))"
    using assms(3) set_append [of "take k (argsort a)" "drop k (argsort a)"] by auto
  have "sorted (map (\<lambda>i. a ! i) (take k (argsort a)) @ map (\<lambda>i. a ! i) (drop k (argsort a)))"
    using sorted_argsort [of a] by (simp flip: map_append)
  then show ?thesis using assms(1) j by (auto simp: sorted_append)
qed

lemma int_median_eq:
  assumes ne: "inds \<noteq> []"
  shows "int_median inds =
     Inr ((sort inds ! ((length inds - 1) div 2) + sort inds ! (length inds div 2)) div 2)"
proof -
  let ?n = "length inds"
  have pos: "0 < ?n" using ne by simp
  have sne: "sort inds \<noteq> []"
  proof
    assume "sort inds = []"
    then have "length (sort inds) = 0" by (simp only: list.size)
    then show False using ne by simp
  qed
  show ?thesis
  proof (cases "odd ?n")
    case True
    then have "(?n - 1) div 2 = ?n div 2" by presburger
    with True pos sne show ?thesis by (simp add: int_median_def Let_def)
  next
    case False
    then have e: "(?n - 1) div 2 = ?n div 2 - 1" using pos by presburger
    have "nat \<lfloor>(real x + real y) / 2\<rfloor> = (x + y) div 2" for x y :: nat
    proof -
      have "(real x + real y) / 2 = real (x + y) / real 2" by simp
      then show ?thesis by (simp only: floor_divide_of_nat_eq nat_int)
    qed
    with False pos e sne show ?thesis by (simp add: int_median_def Let_def)
  qed
qed

text \<open>
  C1 (as the code has it). For a track of at least two nodes, \<open>low_inds\<close> holds the
  (up to) five positions of the smallest \<^emph>\<open>signed\<close> successive differences of the
  temperature \<open>10**logT\<close>: no position outside it has a smaller difference. \<open>split_ind\<close>
  is the median of these positions (the mean of the two middle ones, rounded down, when
  their number is even); with six nodes or more it is the third smallest of the five.
\<close>

theorem split_ind_signed_median:
  assumes "2 \<le> length logT"
  shows "length (low_inds logT) = min 5 (length logT - 1)
    \<and> distinct (low_inds logT)
    \<and> (\<forall>i\<in>set (low_inds logT). i < length logT - 1 \<and>
         (\<forall>j<length logT - 1. j \<notin> set (low_inds logT) \<longrightarrow>
            10 powr (logT ! Suc i) - 10 powr (logT ! i)
              \<le> 10 powr (logT ! Suc j) - 10 powr (logT ! j)))
    \<and> split_ind logT =
          Inr ((sort (low_inds logT) ! ((length (low_inds logT) - 1) div 2)
                + sort (low_inds logT) ! (length (low_inds logT) div 2)) div 2)
    \<and> (6 \<le> length logT \<longrightarrow> split_ind logT = Inr (sort (low_inds logT) ! 2))"
proof -
  let ?T = "temperatures logT"
  let ?d = "diff ?T"
  have lT: "length ?T = length logT" by (simp add: temperatures_def)
  have ld: "length ?d = length logT - 1" by (simp add: length_diff lT)
  have len: "length (low_inds logT) = min 5 (length logT - 1)"
    by (simp add: low_inds_def length_argsort ld)
  have dis: "distinct (low_inds logT)"
    by (simp add: low_inds_def distinct_argsort)
  have sub: "i < length logT - 1" if "i \<in> set (low_inds logT)" for i
  proof -
    from that have "i \<in> set (argsort ?d)" unfolding low_inds_def by (rule in_set_takeD)
    then show ?thesis by (simp add: set_argsort ld)
  qed
  have nd: "?d ! i = 10 powr (logT ! Suc i) - 10 powr (logT ! i)" if "i < length logT - 1" for i
    using that by (simp add: nth_diff lT temperatures_def)
  have least: "10 powr (logT ! Suc i) - 10 powr (logT ! i)
      \<le> 10 powr (logT ! Suc j) - 10 powr (logT ! j)"
    if "i \<in> set (low_inds logT)" "j < length logT - 1" "j \<notin> set (low_inds logT)" for i j
  proof -
    have "?d ! i \<le> ?d ! j"
      using that take_argsort_least [of i 5 ?d j] by (simp add: low_inds_def ld)
    then show ?thesis using nd [OF sub [OF that(1)]] nd [OF that(2)] by simp
  qed
  have "low_inds logT \<noteq> []" using len assms by auto
  then have med: "split_ind logT =
          Inr ((sort (low_inds logT) ! ((length (low_inds logT) - 1) div 2)
                + sort (low_inds logT) ! (length (low_inds logT) div 2)) div 2)"
    unfolding split_ind_def by (rule int_median_eq)
  have six: "split_ind logT = Inr (sort (low_inds logT) ! 2)" if "6 \<le> length logT"
  proof -
    from that len have "length (low_inds logT) = 5" by simp
    with med show ?thesis by simp
  qed
  show ?thesis using len dis sub least med six by blast
qed

text \<open>C1 on a track of seven nodes, whose five steepest drops are the first five steps.\<close>

theorem split_ind_signed_median_witness:
  "2 \<le> length [5, 4, 3, 2, 1, 0, 2 :: real]
   \<and> low_inds [5, 4, 3, 2, 1, 0, 2] = [0, 1, 2, 3, 4]
   \<and> split_ind [5, 4, 3, 2, 1, 0, 2] = Inr (sort (low_inds [5, 4, 3, 2, 1, 0, 2]) ! 2)"
  using split_ind_signed_median [of "[5, 4, 3, 2, 1, 0, 2]"]
  by (simp add: low_inds_def temperatures_def diff_def argsort_def upt_rec)

text \<open>
  C1 (as the specification words it) fails: on the track with temperatures
  \<open>100000, 10000, 1000, 100, 10, 1, 100\<close> the code sorts the signed differences and
  splits at index 2; the five smallest absolute differences would split at index 3.
\<close>

theorem split_ind_abs_counterexample:
  "split_ind [5, 4, 3, 2, 1, 0, 2] = Inr 2
   \<and> split_ind_abs_spec [5, 4, 3, 2, 1, 0, 2] = Inr 3"
  by (simp add: split_ind_def low_inds_def split_ind_abs_spec_def low_inds_abs_spec_def
      temperatures_def diff_def argsort_def upt_rec int_median_def Let_def)

subsection \<open>make_synth_obs\<close>

lemma bind_st_Inr_iff:
  "bind_st m f s = (Inr v, s') \<longleftrightarrow> (\<exists>a s1. m s = (Inr a, s1) \<and> f a s1 = (Inr v, s'))"
  by (auto simp: bind_st_def split: prod.splits sum.splits)

lemma pure_st_eq [simp]: "pure_st r s = (r', s') \<longleftrightarrow> r = r' \<and> s = s'"
  by (auto simp: pure_st_def)

lemma draw_st_Inr_iff:
  "draw_st f s = (Inr v, s') \<longleftrightarrow> f s = Inr (v, s')"
  by (auto simp: draw_st_def split: sum.splits prod.splits)

lemma lookup_Inr_iff [simp]: "lookup d k = Inr v \<longleftrightarrow> d k = Some v"
  by (simp add: lookup_def split: option.splits)

lemma length_gauss_n: "length (fst (gauss_n np n s)) = n"
proof (induction n arbitrary: s)
  case 0
  show ?case by simp
next
  case (Suc n)
  obtain z s1 where g: "gauss np s = (z, s1)" by (cases "gauss np s")
  obtain zs s2 where r: "gauss_n np n s1 = (zs, s2)" by (cases "gauss_n np n s1")
  from Suc [of s1] r have "length zs = n" by simp
  with g r show ?case by simp
qed

lemma normal_n_Inr_iff:
  "normal_n np loc scale n s = Inr (xs, s') \<longleftrightarrow>
     0 \<le> scale \<and> 0 \<le> n \<and> xs = map (\<lambda>z. loc + scale * z) (fst (gauss_n np (nat n) s))
     \<and> s' = snd (gauss_n np (nat n) s)"
  by (auto simp: normal_n_def split: prod.splits)

text \<open>
  C7. When some requested parameter is a known photometric band and \<open>plx\<close> is not
  requested, \<^verbatim>\<open>make_synth_obs\<close> raises ValueError, whatever the synthetic file holds,
  and leaves the generator in the state it found: nothing has been drawn.
\<close>

theorem make_synth_obs_band_without_plx:
  assumes "oparam \<in> set (map fst obs_params)" and "oparam \<in> set known_filters"
      and "''plx'' \<notin> set (map fst obs_params)"
  shows "make_synth_obs np synthfile obs_params plxd g = (Inl ValueError, g)"
proof -
  have "oparam \<in> set (obs_mags_of obs_params)"
    using assms(1,2) by (simp add: obs_mags_of_def)
  then have "obs_mags_of obs_params \<noteq> []" by auto
  then show ?thesis using assms(3) by (simp add: make_synth_obs_def pure_st_def)
qed

lemma load_true_data_result:
  "load_true_data sd keys td0 = Inr td \<Longrightarrow>
     (\<forall>p\<in>set keys. p \<noteq> ''plx'' \<longrightarrow>
        (\<exists>col. sd p = Some col \<and>
           td p = Some (if p = ''logT'' then map (\<lambda>x. 10 powr x) col else col)))
     \<and> (\<forall>p. p \<notin> set keys \<or> p = ''plx'' \<longrightarrow> td p = td0 p)"
proof (induction keys arbitrary: td0)
  case Nil
  then show ?case by simp
next
  case (Cons k keys)
  show ?case
  proof (cases "k = ''plx''")
    case True
    with Cons.prems have "load_true_data sd keys td0 = Inr td" by simp
    from Cons.IH [OF this] True show ?thesis by auto
  next
    case False
    with Cons.prems obtain col where col: "sd k = Some col"
      and rest: "load_true_data sd keys
         (td0(k \<mapsto> (if k = ''logT'' then map (\<lambda>x. 10 powr x) col else col))) = Inr td"
      by (auto split: option.splits)
    note ih = Cons.IH [OF rest]
    show ?thesis
    proof (intro conjI ballI impI allI)
      fix p assume p: "p \<in> set (k # keys)" "p \<noteq> ''plx''"
      show "\<exists>col. sd p = Some col \<and>
           td p = Some (if p = ''logT'' then map (\<lambda>x. 10 powr x) col else col)"
      proof (cases "p \<in> set keys")
        case True
        with ih p(2) show ?thesis by blast
      next
        case False
        with p have pk: "p = k" by simp
        from ih False p(2) have "td p = (td0(k \<mapsto> (if k = ''logT'' then map (\<lambda>x. 10 powr x) col else col))) p"
          by blast
        with pk col show ?thesis by simp
      qed
    next
      fix p assume p: "p \<notin> set (k # keys) \<or> p = ''plx''"
      then have "p \<notin> set keys \<or> p = ''plx''" by auto
      with ih have "td p = (td0(k \<mapsto> (if k = ''logT'' then map (\<lambda>x. 10 powr x) col else col))) p"
        by blast
      moreover have "p \<noteq> k" using p False by auto
      ultimately show "td p = td0 p" by simp
    qed
  qed
qed

lemma observe_all_other:
  "observe_all np plxd n mags td app ps od0 s = (Inr od, s') \<Longrightarrow>
   p \<notin> set (map fst ps) \<Longrightarrow> od p = od0 p"
proof (induction ps arbitrary: od0 s)
  case Nil
  then show ?case by simp
next
  case (Cons it ps)
  obtain k sg where it: "it = (k, sg)" by (cases it)
  from Cons.prems(1) it obtain col s1 where
    r: "observe_all np plxd n mags td app ps (od0(k \<mapsto> col)) s1 = (Inr od, s')"
    by (auto simp: bind_st_Inr_iff)
  from Cons.prems(2) it have "p \<notin> set (map fst ps)" "p \<noteq> k" by auto
  with Cons.IH [OF r] show ?case by simp
qed

lemma observe_all_result:
  "observe_all np plxd n mags td app ps od0 s = (Inr od, s') \<Longrightarrow>
   distinct (map fst ps) \<Longrightarrow> (p, sigma) \<in> set ps \<Longrightarrow>
   \<exists>col s1 s2. observe np plxd n mags td app p sigma s1 = (Inr col, s2) \<and> od p = Some col"
proof (induction ps arbitrary: od0 s)
  case Nil
  then show ?case by simp
next
  case (Cons it ps)
  obtain k sg where it: "it = (k, sg)" by (cases it)
  from Cons.prems(1) it obtain col s1 where
    o: "observe np plxd n mags td app k sg s = (Inr col, s1)" and
    r: "observe_all np plxd n mags td app ps (od0(k \<mapsto> col)) s1 = (Inr od, s')"
    by (auto simp: bind_st_Inr_iff)
  show ?case
  proof (cases "(p, sigma) = (k, sg)")
    case True
    from Cons.prems(2) it have "k \<notin> set (map fst ps)" by simp
    from observe_all_other [OF r this] have "od k = Some col" by simp
    with o True show ?thesis by blast
  next
    case False
    with Cons.prems(3) it have "(p, sigma) \<in> set ps" by auto
    moreover from Cons.prems(2) have "distinct (map fst ps)" by simp
    ultimately show ?thesis using Cons.IH [OF r] by blast
  qed
qed


lemma true_values_keeps:
  assumes "true_values np plxd n obs_params td s = (Inr (td', app), s')" and "p \<noteq> ''plx''"
  shows "td' p = td p"
  using assms
  by (auto simp: true_values_def bind_st_Inr_iff bind_res_Inr_iff split: if_splits)

lemma logT_not_band: "''logT'' \<notin> set (obs_mags_of obs_params)"
  by (simp add: obs_mags_of_def known_filters_def)

lemma np_add_equal_length:
  "length x = length y \<Longrightarrow> np_add x y = Inr (map (\<lambda>(a, b). a + b) (zip x y))"
  by (simp add: np_add_def broadcast2_def)

text \<open>
  C10. In a run that returns, with \<open>logT\<close> requested at uncertainty \<open>sigma\<close>: the true
  value of \<open>logT\<close> is \<open>10**logT\<close> of the file's column, every other requested parameter
  but \<open>plx\<close> is loaded as the file has it, and the observed \<open>logT\<close> column is
  \<open>10**logT\<close> plus the noise \<open>sigma * z\<close> of \<open>ns\<close> standard normal draws.
\<close>

theorem logT_observed_in_kelvin:
  assumes run: "make_synth_obs np synthfile obs_params plxd g = (Inr obs_data, g')"
      and dist: "distinct (map fst obs_params)"
      and req: "(''logT'', sigma) \<in> set obs_params"
  shows "\<exists>true_data col s obs.
      load_true_data (file_data synthfile) (map fst obs_params) Map.empty = Inr true_data
      \<and> file_data synthfile ''logT'' = Some col
      \<and> true_data ''logT'' = Some (map (\<lambda>x. 10 powr x) col)
      \<and> (\<forall>p\<in>set (map fst obs_params). p \<noteq> ''logT'' \<and> p \<noteq> ''plx'' \<longrightarrow>
            true_data p = file_data synthfile p)
      \<and> obs_data ''logT'' = Some obs
      \<and> np_add (map (\<lambda>x. 10 powr x) col)
           (map (\<lambda>z. 0 + sigma * z) (fst (gauss_n np (nat (config_ns synthfile)) s))) = Inr obs
      \<and> (length col = nat (config_ns synthfile) \<longrightarrow>
           obs = map (\<lambda>(x, z). 10 powr x + sigma * z)
                   (zip col (fst (gauss_n np (nat (config_ns synthfile)) s))))"
proof -
  let ?n = "config_ns synthfile"
  let ?keys = "map fst obs_params"
  from run obtain td td' app s1 where
    load: "load_true_data (file_data synthfile) ?keys Map.empty = Inr td" and
    tv: "true_values np plxd ?n obs_params td g = (Inr (td', app), s1)" and
    oa: "observe_all np plxd ?n (obs_mags_of obs_params) td' app obs_params Map.empty s1
           = (Inr obs_data, g')"
    by (auto simp: make_synth_obs_def bind_st_Inr_iff split: if_splits)
  have key: "''logT'' \<in> set ?keys" using req by force
  note lr = load_true_data_result [OF load]
  from lr key obtain col where
    col: "file_data synthfile ''logT'' = Some col" and
    tdl: "td ''logT'' = Some (map (\<lambda>x. 10 powr x) col)"
    by fastforce
  have others: "\<forall>p\<in>set ?keys. p \<noteq> ''logT'' \<and> p \<noteq> ''plx'' \<longrightarrow> td p = file_data synthfile p"
    using lr by fastforce
  have td'l: "td' ''logT'' = Some (map (\<lambda>x. 10 powr x) col)"
    using true_values_keeps [OF tv, of "''logT''"] tdl by simp
  from observe_all_result [OF oa dist req] obtain obs s2 s3 where
    ob: "observe np plxd ?n (obs_mags_of obs_params) td' app ''logT'' sigma s2 = (Inr obs, s3)" and
    od: "obs_data ''logT'' = Some obs"
    by blast
  from ob td'l have add: "np_add (map (\<lambda>x. 10 powr x) col)
           (map (\<lambda>z. 0 + sigma * z) (fst (gauss_n np (nat ?n) s2))) = Inr obs"
    by (auto simp: observe_def logT_not_band bind_st_Inr_iff draw_st_Inr_iff normal_n_Inr_iff)
  have eq: "obs = map (\<lambda>(x, z). 10 powr x + sigma * z) (zip col (fst (gauss_n np (nat ?n) s2)))"
    if "length col = nat ?n"
  proof -
    have "length (map (\<lambda>x. 10 powr x) col)
        = length (map (\<lambda>z. 0 + sigma * z) (fst (gauss_n np (nat ?n) s2)))"
      using that by (simp add: length_gauss_n)
    from np_add_equal_length [OF this] add show ?thesis
      by (auto simp: zip_map1 zip_map2 case_prod_unfold comp_def)
  qed
  show ?thesis using load col tdl others od add eq by blast
qed

text \<open>
  C10 for one star with \<open>logT = 3\<close>, uncertainty 50 and a normal draw of 1: the observed
  temperature is 1000 + 50.
\<close>

theorem logT_observed_in_kelvin_witness:
  "\<exists>obs_data g'.
     make_synth_obs (const_rng (1/2) 1) \<lparr>config_ns = 1, file_data = [''logT'' \<mapsto> [3]]\<rparr>
       [(''logT'', 50)] SN 0 = (Inr obs_data, g')
     \<and> distinct (map fst [(''logT'', 50 :: real)])
     \<and> (''logT'', 50) \<in> set [(''logT'', 50 :: real)]
     \<and> obs_data ''logT'' = Some [1050]"
proof -
  let ?np = "const_rng (1/2) 1"
  let ?file = "\<lparr>config_ns = 1, file_data = [''logT'' \<mapsto> [3]]\<rparr>"
  obtain r g' where run: "make_synth_obs ?np ?file [(''logT'', 50)] SN 0 = (r, g')"
    by (cases "make_synth_obs ?np ?file [(''logT'', 50)] SN 0")
  have ok: "\<exists>od. r = Inr od"
    using run
    by (auto simp: make_synth_obs_def obs_mags_of_def known_filters_def true_values_def
        observe_def bind_st_def pure_st_def draw_st_def normal_n_def lookup_def const_rng_def
        np_add_def broadcast2_def split: prod.splits)
  then obtain od where r: "r = Inr od" by blast
  from logT_observed_in_kelvin [OF run [unfolded r], of 50]
  obtain obs s where "od ''logT'' = Some obs"
    "obs = map (\<lambda>(x, z). 10 powr x + 50 * z) (zip [3] (fst (gauss_n ?np (nat 1) s)))"
    by auto
  then have "od ''logT'' = Some [1050]" by (simp add: const_rng_def)
  with run r show ?thesis by simp
qed

lemma app_mags_true_of_result:
  "app_mags_true_of mags td mu app0 = Inr app \<Longrightarrow>
     (\<forall>m\<in>set mags. \<exists>tv v. td m = Some tv \<and> np_add tv mu = Inr v \<and> app m = Some v)
     \<and> (\<forall>m. m \<notin> set mags \<longrightarrow> app m = app0 m)"
proof (induction mags arbitrary: app0)
  case Nil
  then show ?case by simp
next
  case (Cons mag rest)
  from Cons.prems obtain tv v where
    tv: "td mag = Some tv" and v: "np_add tv mu = Inr v" and
    r: "app_mags_true_of rest td mu (app0(mag \<mapsto> v)) = Inr app"
    by (auto simp: bind_res_Inr_iff)
  note ih = Cons.IH [OF r]
  have "\<exists>tv v. td m = Some tv \<and> np_add tv mu = Inr v \<and> app m = Some v"
    if "m \<in> set (mag # rest)" for m
  proof (cases "m \<in> set rest")
    case True
    with ih show ?thesis by blast
  next
    case False
    with that have "m = mag" by simp
    moreover from ih False have "app m = (app0(mag \<mapsto> v)) m" by blast
    ultimately show ?thesis using tv v by simp
  qed
  moreover have "app m = app0 m" if "m \<notin> set (mag # rest)" for m
    using ih that by auto
  ultimately show ?case by blast
qed

lemma plx_true_of_length:
  "plx_true_of np plxd n s = (Inr plx_true, s') \<Longrightarrow> length plx_true = nat n"
  by (cases plxd)
     (auto simp: plx_true_of_def bind_st_Inr_iff draw_st_Inr_iff normal_n_Inr_iff length_gauss_n
        split: if_splits)

lemma np_add_zero_noise:
  assumes "length tv = length zs"
  shows "np_add tv (map (\<lambda>z. 0 + 0 * z) zs) = Inr tv"
proof -
  have "map (\<lambda>(a, b). a + b) (zip tv (map (\<lambda>z. 0 + 0 * z) zs)) = tv"
    using assms by (induction tv zs rule: list_induct2) simp_all
  then show ?thesis using assms by (simp add: np_add_def broadcast2_def)
qed

lemma observe_zero_sigma:
  assumes ob: "observe np plxd n mags td app p 0 s = (Inr col, s')"
      and nosky: "\<not> (p = ''plx'' \<and> plxd = Skymapper)"
      and len: "\<And>tv. (if p \<in> set mags then app p else td p) = Some tv \<Longrightarrow> length tv = nat n"
  shows "(if p \<in> set mags then app p else td p) = Some col"
proof (cases "p \<in> set mags")
  case True
  with ob obtain tv sa where tv: "app p = Some tv"
    and add: "np_add tv (map (\<lambda>z. 0 + 0 * z) (fst (gauss_n np (nat n) sa))) = Inr col"
    by (auto simp: observe_def bind_st_Inr_iff draw_st_Inr_iff normal_n_Inr_iff)
  from len [of tv] True tv have "length tv = length (fst (gauss_n np (nat n) sa))"
    by (simp add: length_gauss_n)
  from np_add_zero_noise [OF this] add have "col = tv" by simp
  with True tv show ?thesis by simp
next
  case False
  with ob nosky obtain tv sa where tv: "td p = Some tv"
    and add: "np_add tv (map (\<lambda>z. 0 + 0 * z) (fst (gauss_n np (nat n) sa))) = Inr col"
    by (auto simp: observe_def bind_st_Inr_iff draw_st_Inr_iff normal_n_Inr_iff)
  from len [of tv] False tv have "length tv = length (fst (gauss_n np (nat n) sa))"
    by (simp add: length_gauss_n)
  from np_add_zero_noise [OF this] add have "col = tv" by simp
  with False tv show ?thesis by simp
qed

lemma plx_not_band: "''plx'' \<notin> set known_filters"
  by (simp add: known_filters_def)

lemma in_obs_mags_iff:
  "p \<in> set (obs_mags_of obs_params) \<longleftrightarrow> p \<in> set known_filters \<and> p \<in> set (map fst obs_params)"
  by (auto simp: obs_mags_of_def)

text \<open>
  C8 (as the code has it). In a run that returns, with every sigma 0 and a file whose
  arrays have \<open>ns\<close> entries, each observed column is the true one: the drawn true
  parallax for \<open>plx\<close> unless the policy is \<open>Skymapper\<close>; the file's column plus the
  distance modulus for a photometric band; \<open>10**logT\<close> for \<open>logT\<close>; the file's column
  for every other parameter.
\<close>

theorem zero_sigma_round_trip:
  assumes run: "make_synth_obs np synthfile obs_params plxd g = (Inr obs_data, g')"
      and dist: "distinct (map fst obs_params)"
      and zero: "\<forall>(p, sigma)\<in>set obs_params. sigma = 0"
      and wf: "\<forall>p col. file_data synthfile p = Some col \<longrightarrow> length col = nat (config_ns synthfile)"
  shows "\<exists>plx_true.
      (''plx'' \<in> set (map fst obs_params) \<longrightarrow>
         (\<exists>s. plx_true_of np plxd (config_ns synthfile) g = (Inr plx_true, s)))
      \<and> (\<forall>(p, sigma)\<in>set obs_params.
           (p = ''plx'' \<and> plxd \<noteq> Skymapper \<longrightarrow> obs_data p = Some plx_true)
         \<and> (p \<in> set known_filters \<longrightarrow>
              (\<exists>col. file_data synthfile p = Some col \<and>
                 obs_data p = Some (map (\<lambda>(x, mu). x + mu) (zip col (mu_true_of plx_true)))))
         \<and> (p \<noteq> ''plx'' \<and> p \<notin> set known_filters \<longrightarrow>
              (\<exists>col. file_data synthfile p = Some col \<and>
                 obs_data p = Some (if p = ''logT'' then map (\<lambda>x. 10 powr x) col else col))))"
proof -
  let ?n = "config_ns synthfile"
  let ?keys = "map fst obs_params"
  let ?mags = "obs_mags_of obs_params"
  from run obtain td td' app s1 where
    load: "load_true_data (file_data synthfile) ?keys Map.empty = Inr td" and
    tv: "true_values np plxd ?n obs_params td g = (Inr (td', app), s1)" and
    oa: "observe_all np plxd ?n ?mags td' app obs_params Map.empty s1 = (Inr obs_data, g')"
    by (auto simp: make_synth_obs_def bind_st_Inr_iff split: if_splits)
  note lr = load_true_data_result [OF load]
  have loaded: "\<exists>col. file_data synthfile p = Some col \<and> length col = nat ?n \<and>
      td' p = Some (if p = ''logT'' then map (\<lambda>x. 10 powr x) col else col)"
    if "p \<in> set ?keys" "p \<noteq> ''plx''" for p
  proof -
    from lr that obtain col where c: "file_data synthfile p = Some col"
      "td p = Some (if p = ''logT'' then map (\<lambda>x. 10 powr x) col else col)" by blast
    moreover have "td' p = td p" using true_values_keeps [OF tv that(2)] .
    moreover have "length col = nat ?n" using wf c(1) by blast
    ultimately show ?thesis by simp
  qed
  obtain plx_true where
    plx: "''plx'' \<in> set ?keys \<longrightarrow>
      (\<exists>s. plx_true_of np plxd ?n g = (Inr plx_true, s)) \<and> td' ''plx'' = Some plx_true
      \<and> length plx_true = nat ?n
      \<and> app_mags_true_of ?mags td' (mu_true_of plx_true) Map.empty = Inr app"
  proof (cases "''plx'' \<in> set ?keys")
    case True
    with tv obtain pt s where "plx_true_of np plxd ?n g = (Inr pt, s)"
      "td' = td(''plx'' \<mapsto> pt)"
      "app_mags_true_of ?mags (td(''plx'' \<mapsto> pt)) (mu_true_of pt) Map.empty = Inr app"
      by (auto simp: true_values_def bind_st_Inr_iff bind_res_Inr_iff)
    then show ?thesis using that [of pt] plx_true_of_length by fastforce
  next
    case False
    then show ?thesis using that by blast
  qed
  have nomag: "''plx'' \<in> set ?keys" if "p \<in> set ?mags" for p
  proof (rule ccontr)
    assume "''plx'' \<notin> set ?keys"
    moreover from that have "?mags \<noteq> []" by auto
    ultimately show False using run by (simp add: make_synth_obs_def pure_st_def)
  qed
  have mag: "\<exists>col. file_data synthfile p = Some col \<and>
        app p = Some (map (\<lambda>(x, mu). x + mu) (zip col (mu_true_of plx_true)))
        \<and> length col = nat ?n \<and> length (mu_true_of plx_true) = nat ?n"
    if "p \<in> set ?mags" for p
  proof -
    from that have pk: "p \<in> set ?keys" "p \<in> set known_filters" by (simp_all add: in_obs_mags_iff)
    then have pp: "p \<noteq> ''plx''" "p \<noteq> ''logT''" using plx_not_band logT_not_band that by auto
    from loaded [OF pk(1) pp(1)] pp(2) obtain col where
      c: "file_data synthfile p = Some col" "length col = nat ?n" "td' p = Some col" by auto
    from plx nomag [OF that] have
      am: "app_mags_true_of ?mags td' (mu_true_of plx_true) Map.empty = Inr app"
      and lp: "length plx_true = nat ?n" by auto
    from app_mags_true_of_result [OF am] that c(3) obtain v where
      v: "np_add col (mu_true_of plx_true) = Inr v" "app p = Some v" by fastforce
    have "length col = length (mu_true_of plx_true)" using c(2) lp by (simp add: mu_true_of_def)
    from np_add_equal_length [OF this] v c lp show ?thesis by (simp add: mu_true_of_def)
  qed
  have each: "(p = ''plx'' \<and> plxd \<noteq> Skymapper \<longrightarrow> obs_data p = Some plx_true)
         \<and> (p \<in> set known_filters \<longrightarrow>
              (\<exists>col. file_data synthfile p = Some col \<and>
                 obs_data p = Some (map (\<lambda>(x, mu). x + mu) (zip col (mu_true_of plx_true)))))
         \<and> (p \<noteq> ''plx'' \<and> p \<notin> set known_filters \<longrightarrow>
              (\<exists>col. file_data synthfile p = Some col \<and>
                 obs_data p = Some (if p = ''logT'' then map (\<lambda>x. 10 powr x) col else col)))"
    if mem: "(p, sigma) \<in> set obs_params" for p sigma
  proof -
    from zero mem have sg: "sigma = 0" by blast
    from mem have pk: "p \<in> set ?keys" by force
    from observe_all_result [OF oa dist mem] sg obtain col sa sb where
      ob: "observe np plxd ?n ?mags td' app p 0 sa = (Inr col, sb)" and
      od: "obs_data p = Some col" by blast
    have len: "length tv = nat ?n" if "(if p \<in> set ?mags then app p else td' p) = Some tv" for tv
    proof (cases "p \<in> set ?mags")
      case True
      with mag [OF True] that show ?thesis by auto
    next
      case False
      show ?thesis
      proof (cases "p = ''plx''")
        case True
        with plx pk False that show ?thesis by auto
      next
        case np: False
        from loaded [OF pk np] False that show ?thesis by auto
      qed
    qed
    have res: "\<not> (p = ''plx'' \<and> plxd = Skymapper) \<Longrightarrow>
        (if p \<in> set ?mags then app p else td' p) = Some col"
      using observe_zero_sigma [OF ob _ len] by blast
    have a: "obs_data p = Some plx_true" if "p = ''plx''" "plxd \<noteq> Skymapper"
    proof -
      have "p \<notin> set ?mags" using that(1) plx_not_band by (simp add: in_obs_mags_iff)
      with res that od plx pk show ?thesis by auto
    qed
    have b: "\<exists>col. file_data synthfile p = Some col \<and>
                 obs_data p = Some (map (\<lambda>(x, mu). x + mu) (zip col (mu_true_of plx_true)))"
      if "p \<in> set known_filters"
    proof -
      have m: "p \<in> set ?mags" using that pk by (simp add: in_obs_mags_iff)
      then have "p \<noteq> ''plx''" using plx_not_band that by auto
      with res m od mag [OF m] show ?thesis by auto
    qed
    have c: "\<exists>col. file_data synthfile p = Some col \<and>
                 obs_data p = Some (if p = ''logT'' then map (\<lambda>x. 10 powr x) col else col)"
      if "p \<noteq> ''plx''" "p \<notin> set known_filters"
    proof -
      have m: "p \<notin> set ?mags" using that by (simp add: in_obs_mags_iff)
      with res that od loaded [OF pk that(1)] show ?thesis by auto
    qed
    from a b c show ?thesis by blast
  qed
  show ?thesis
  proof (intro exI [of _ plx_true] conjI)
    show "''plx'' \<in> set ?keys \<longrightarrow> (\<exists>s. plx_true_of np plxd ?n g = (Inr plx_true, s))"
      using plx by blast
    show "\<forall>(p, sigma)\<in>set obs_params.
           (p = ''plx'' \<and> plxd \<noteq> Skymapper \<longrightarrow> obs_data p = Some plx_true)
         \<and> (p \<in> set known_filters \<longrightarrow>
              (\<exists>col. file_data synthfile p = Some col \<and>
                 obs_data p = Some (map (\<lambda>(x, mu). x + mu) (zip col (mu_true_of plx_true)))))
         \<and> (p \<noteq> ''plx'' \<and> p \<notin> set known_filters \<longrightarrow>
              (\<exists>col. file_data synthfile p = Some col \<and>
                 obs_data p = Some (if p = ''logT'' then map (\<lambda>x. 10 powr x) col else col)))"
      using each by blast
  qed
qed

lemma cumsum_from_pos:
  "0 \<le> acc \<Longrightarrow> \<forall>x\<in>set p. 0 < x \<Longrightarrow> \<forall>c\<in>set (cumsum_from acc p). 0 < c"
proof (induction p arbitrary: acc)
  case Nil
  show ?case by simp
next
  case (Cons x p)
  have "0 \<le> acc + x" "0 < acc + x" using Cons.prems by auto
  with Cons.IH [of "acc + x"] Cons.prems show ?case by simp
qed

lemma cumsum_from_Nil_iff [simp]: "cumsum_from acc p = [] \<longleftrightarrow> p = []"
  by (cases p) simp_all

lemma locate_zero:
  assumes "\<forall>x\<in>set p. 0 < x"
  shows "locate p 0 = 0"
proof (cases "p = []")
  case True
  then show ?thesis by (simp add: locate_def)
next
  case False
  let ?cdf = "cumsum_from 0 p"
  have pos: "\<forall>c\<in>set ?cdf. 0 < c" using cumsum_from_pos [of 0 p] assms by simp
  have "last ?cdf \<in> set ?cdf" using False by simp
  with pos have l: "0 < last ?cdf" by blast
  show ?thesis
    using pos l by (auto simp: locate_def Let_def filter_empty_conv divide_le_0_iff)
qed

lemma sum_list_divide: "sum_list (map (\<lambda>p. p / c) xs) = sum_list xs / (c :: real)"
  by (induction xs) (simp_all add: add_divide_distrib)

lemma length_plx_rel_err_interval: "length plx_rel_err_interval = 19"
  by (simp add: plx_rel_err_interval_def)

lemma plx_rel_err_prob_pos: "\<forall>x\<in>set plx_rel_err_prob. 0 < x"
proof -
  let ?prob = "map (\<lambda>x. exp (- 14 * x)) plx_rel_err_interval"
  have "\<forall>x\<in>set ?prob. 0 < x" by simp
  moreover have "?prob \<noteq> []" by (simp add: plx_rel_err_interval_def)
  ultimately have "0 < sum_list ?prob"
    by (metis sum_list_nonneg less_le list.set_intros(1) neq_Nil_conv sum_list.Cons add_pos_nonneg set_subset_Cons subsetD)
  then show ?thesis by (auto simp: plx_rel_err_prob_def Let_def)
qed

lemma sum_plx_rel_err_prob: "sum_list plx_rel_err_prob = 1"
proof -
  let ?prob = "map (\<lambda>x. exp (- 14 * x)) plx_rel_err_interval"
  have "sum_list plx_rel_err_prob = sum_list ?prob / sum_list ?prob"
    unfolding plx_rel_err_prob_def Let_def by (rule sum_list_divide)
  moreover have "sum_list ?prob \<noteq> 0"
    using plx_rel_err_prob_pos by (auto simp: plx_rel_err_prob_def Let_def plx_rel_err_interval_def upt_rec)
  ultimately show ?thesis by simp
qed

lemma plx_rel_err_prob_accepted: "p_accepted 19 plx_rel_err_prob"
proof -
  have "length plx_rel_err_prob = 19"
    by (simp add: plx_rel_err_prob_def Let_def length_plx_rel_err_interval)
  moreover have "\<not> list_ex (\<lambda>x. x < 0) plx_rel_err_prob"
    using plx_rel_err_prob_pos by (auto simp: list_ex_iff)
  ultimately show ?thesis by (simp add: p_accepted_def sum_plx_rel_err_prob)
qed

subsection \<open>Concrete runs of make_synth_obs\<close>

text \<open>C7 for the band \<open>J\<close> requested alone, on a file that does not even hold it.\<close>

theorem make_synth_obs_band_without_plx_witness:
  "''J'' \<in> set (map fst [(''J'', 1/10 :: real)]) \<and> ''J'' \<in> set known_filters
   \<and> ''plx'' \<notin> set (map fst [(''J'', 1/10 :: real)])
   \<and> make_synth_obs (const_rng (1/2) 1) \<lparr>config_ns = 1, file_data = Map.empty\<rparr>
        [(''J'', 1/10)] SN 0 = (Inl ValueError, 0)"
  using make_synth_obs_band_without_plx [of "''J''" "[(''J'', 1/10)]" "const_rng (1/2) 1"
      "\<lparr>config_ns = 1, file_data = Map.empty\<rparr>" SN 0]
  by (simp add: known_filters_def)


lemma const_rng_simps [simp]:
  "np_seed (const_rng u z) k = 0"
  "random_sample (const_rng u z) s = (u, Suc s)"
  "gauss (const_rng u z) s = (z, Suc s)"
  by (simp_all add: const_rng_def)

lemma choice_n_first:
  "choice_n (const_rng 0 z) plx_rel_err_interval 1 plx_rel_err_prob s = Inr ([1/50], Suc s)"
proof -
  have "item plx_rel_err_interval 0 = Inr (1/50)"
    by (simp add: item_def plx_rel_err_interval_def upt_rec)
  then show ?thesis
    using plx_rel_err_prob_accepted locate_zero [OF plx_rel_err_prob_pos]
    by (simp add: choice_n_def length_plx_rel_err_interval)
qed

text \<open>
  C8 (as stated) fails under the \<open>Skymapper\<close> policy: with one star, \<open>sigma = 0\<close> for
  \<open>plx\<close> and a normal draw of 1, the true parallax is \<open>exp 0.401\<close> and the observed
  one is larger by the factor 1.02: the noise scale is \<open>true * plx_rel_err\<close>, not sigma.
\<close>

theorem skymapper_plx_noise_counterexample:
  "make_synth_obs (const_rng 0 1) \<lparr>config_ns = 1, file_data = Map.empty\<rparr>
      [(''plx'', 0)] Skymapper 0
     = (Inr [''plx'' \<mapsto> [exp (401/1000) + exp (401/1000) * (1/50)]], 3)
   \<and> plx_true_of (const_rng 0 1) Skymapper 1 0 = (Inr [exp (401/1000)], 1)
   \<and> exp (401/1000) + exp (401/1000) * (1/50) \<noteq> (exp (401/1000) :: real)"
proof -
  have pt: "plx_true_of (const_rng 0 1) Skymapper 1 0 = (Inr [exp (401/1000)], 1)"
    by (simp add: plx_true_of_def bind_st_def draw_st_def pure_st_def normal_n_def)
  have run: "make_synth_obs (const_rng 0 1) \<lparr>config_ns = 1, file_data = Map.empty\<rparr>
      [(''plx'', 0)] Skymapper 0
     = (Inr [''plx'' \<mapsto> [exp (401/1000) + exp (401/1000) * (1/50)]], 3)"
    by (simp add: make_synth_obs_def obs_mags_of_def known_filters_def true_values_def pt
        observe_def bind_st_def draw_st_def pure_st_def choice_n_first lookup_def
        np_multiply_def np_add_def broadcast2_def normal_arr_def mult_less_0_iff)
  have "exp (401/1000) * (1/50) \<noteq> (0::real)" by simp
  then have ne: "exp (401/1000) + exp (401/1000) * (1/50) \<noteq> (exp (401/1000) :: real)" by simp
  show ?thesis using run pt ne by blast
qed

text \<open>
  C8 for one star at parallax 10 (distance modulus 5) with \<open>J = 5\<close> and \<open>logT = 3\<close>:
  all sigmas 0 give \<open>plx = 10\<close>, \<open>J = 10\<close> and a temperature of 1000.
\<close>

theorem zero_sigma_round_trip_witness:
  "\<exists>obs_data g'.
     make_synth_obs (const_rng (1/2) 1)
        \<lparr>config_ns = 1, file_data = [''J'' \<mapsto> [5], ''logT'' \<mapsto> [3]]\<rparr>
        [(''J'', 0), (''logT'', 0), (''plx'', 0)] (Value 10) 0 = (Inr obs_data, g')
     \<and> distinct (map fst [(''J'', 0 :: real), (''logT'', 0), (''plx'', 0)])
     \<and> obs_data ''plx'' = Some [10] \<and> obs_data ''J'' = Some [10]
     \<and> obs_data ''logT'' = Some [1000]"
proof -
  let ?np = "const_rng (1/2) 1"
  let ?file = "\<lparr>config_ns = 1, file_data = [''J'' \<mapsto> [5], ''logT'' \<mapsto> [3]]\<rparr>"
  let ?ps = "[(''J'', 0 :: real), (''logT'', 0), (''plx'', 0)]"
  have pt: "plx_true_of ?np (Value 10) 1 0 = (Inr [10], 0)"
    by (simp add: plx_true_of_def pure_st_def)
  have "\<exists>od g'. make_synth_obs ?np ?file ?ps (Value 10) 0 = (Inr od, g')"
    by (simp add: make_synth_obs_def obs_mags_of_def known_filters_def true_values_def pt
        observe_def bind_st_def pure_st_def draw_st_def normal_n_def lookup_def
        np_add_def broadcast2_def mu_true_of_def)
  then obtain od g' where run: "make_synth_obs ?np ?file ?ps (Value 10) 0 = (Inr od, g')"
    by blast
  have wf: "\<forall>p col. file_data ?file p = Some col \<longrightarrow> length col = nat (config_ns ?file)"
    by (auto split: if_splits)
  have zero: "\<forall>(p, sigma)\<in>set ?ps. sigma = 0" by simp
  from zero_sigma_round_trip [OF run _ zero wf]
  obtain plx_true where
    a: "\<exists>s. plx_true_of ?np (Value 10) (config_ns ?file) 0 = (Inr plx_true, s)" and
    b: "od ''plx'' = Some plx_true" and
    c: "od ''J'' = Some (map (\<lambda>(x, mu). x + mu) (zip [5] (mu_true_of plx_true)))" and
    d: "od ''logT'' = Some [1000]"
    by (auto simp: known_filters_def)
  from a pt have "plx_true = [10]" by simp
  with b c d have "od ''plx'' = Some [10] \<and> od ''J'' = Some [10] \<and> od ''logT'' = Some [1000]"
    by (simp add: mu_true_of_def)
  with run show ?thesis by simp
qed

subsection \<open>The sampling loop\<close>


lemma sampling_loop_run_passes:
  assumes run: "sampling_loop (np :: 's np_random) grid a aux st = Some r"
  shows "\<exists>k. run_passes np grid a aux k st = r
           \<and> (case r of Inl e \<Rightarrow> True | Inr st' \<Rightarrow> \<not> int (iv st') < ns a)"
proof -
  let ?P = "\<lambda>np grid a aux st r. \<exists>k. run_passes np grid a aux k st = r
           \<and> (case r of Inl e \<Rightarrow> True | Inr st' \<Rightarrow> \<not> int (iv st') < ns a)"
  show ?thesis
  proof (rule sampling_loop.raw_induct [where P = ?P, OF _ run])
    fix loop and np :: "'s np_random" and grid a aux st r
    assume IH: "\<And>np grid a aux st r. loop np grid a aux st = Some r \<Longrightarrow> ?P np grid a aux st r"
      and body: "(if int (iv st) < ns a
          then case attempt np grid a aux st of Inl e \<Rightarrow> Some (Inl e)
               | Inr st' \<Rightarrow> loop np grid a aux st'
          else Some (Inr st)) = Some r"
    show "?P np grid a aux st r"
    proof (cases "int (iv st) < ns a")
      case False
      with body have "run_passes np grid a aux 0 st = r" by auto
      moreover from False body
      have "case r of Inl e \<Rightarrow> True | Inr st' \<Rightarrow> \<not> int (iv st') < ns a" by auto
      ultimately show ?thesis by blast
    next
      case True
      show ?thesis
      proof (cases "attempt np grid a aux st")
        case (Inl e)
        with body True have "r = Inl e" by simp
        with True Inl have "run_passes np grid a aux (Suc 0) st = r" by simp
        with \<open>r = Inl e\<close> show ?thesis by (intro exI [of _ "Suc 0"]) simp
      next
        case (Inr s1)
        with body True have "loop np grid a aux s1 = Some r" by simp
        from IH [OF this] obtain k where
          k: "run_passes np grid a aux k s1 = r"
             "case r of Inl e \<Rightarrow> True | Inr st' \<Rightarrow> \<not> int (iv st') < ns a" by blast
        from k(1) True Inr have "run_passes np grid a aux (Suc k) st = r" by simp
        with k(2) show ?thesis by blast
      qed
    qed
  qed
qed

lemma run_passes_invariant:
  assumes "run_passes np grid a aux k st = Inr st'"
      and "I st"
      and step: "\<And>s s'. I s \<Longrightarrow> int (iv s) < ns a \<Longrightarrow> attempt np grid a aux s = Inr s' \<Longrightarrow> I s'"
  shows "I st'"
  using assms(1,2)
proof (induction k arbitrary: st)
  case 0
  then show ?case by simp
next
  case (Suc k)
  show ?case
  proof (cases "int (iv st) < ns a")
    case False
    with Suc.prems show ?thesis by simp
  next
    case True
    with Suc.prems(1) obtain s1 where
      s1: "attempt np grid a aux st = Inr s1" "run_passes np grid a aux k s1 = Inr st'"
      by (auto simp: bind_res_Inr_iff)
    from Suc.IH [OF s1(2) step [OF Suc.prems(2) True s1(1)]] show ?thesis .
  qed
qed

lemma sampling_loop_invariant:
  assumes run: "sampling_loop np grid a aux st = Some (Inr st')"
      and init: "I st"
      and step: "\<And>s s'. I s \<Longrightarrow> int (iv s) < ns a \<Longrightarrow> attempt np grid a aux s = Inr s' \<Longrightarrow> I s'"
  shows "I st' \<and> \<not> int (iv st') < ns a"
proof -
  from sampling_loop_run_passes [OF run] obtain k where
    "run_passes np grid a aux k st = Inr st'" "\<not> int (iv st') < ns a" by auto
  with run_passes_invariant [of np grid a aux k st st' I] init step show ?thesis by blast
qed

subsection \<open>Writing the output arrays\<close>

lemma item_Inr_iff [simp]: "item a i = Inr v \<longleftrightarrow> i < length a \<and> v = a ! i"
  by (auto simp: item_def)

lemma last_item_Inr_iff [simp]: "last_item a = Inr v \<longleftrightarrow> a \<noteq> [] \<and> v = last a"
  by (auto simp: last_item_def)

lemma store_Inr_iff:
  "store d name i v = Inr d' \<longleftrightarrow>
     (\<exists>col. d name = Some col \<and> i < length col \<and> d' = d(name \<mapsto> col[i := v]))"
  by (auto simp: store_def split: option.splits)

lemma rows_kept_refl: "rows_kept i d d"
  by (simp add: rows_kept_def option.rel_refl)

lemma rows_kept_trans: "rows_kept i d d1 \<Longrightarrow> rows_kept i d1 d2 \<Longrightarrow> rows_kept i d d2"
  unfolding rows_kept_def
proof (intro allI)
  fix name
  assume a: "\<forall>name. rel_option (\<lambda>col col'. length col' = length col \<and> (\<forall>k. k \<noteq> i \<longrightarrow> col' ! k = col ! k))
        (d name) (d1 name)"
    and b: "\<forall>name. rel_option (\<lambda>col col'. length col' = length col \<and> (\<forall>k. k \<noteq> i \<longrightarrow> col' ! k = col ! k))
        (d1 name) (d2 name)"
  from a [rule_format, of name] b [rule_format, of name]
  show "rel_option (\<lambda>col col'. length col' = length col \<and> (\<forall>k. k \<noteq> i \<longrightarrow> col' ! k = col ! k))
        (d name) (d2 name)"
    by (cases "d name"; cases "d1 name"; cases "d2 name") simp_all
qed

lemma rows_kept_store: "store d name i v = Inr d' \<Longrightarrow> rows_kept i d d'"
  by (auto simp: store_Inr_iff rows_kept_def option.rel_refl)

lemma rows_kept_SomeD:
  assumes "rows_kept i d d'" and "d name = Some col"
  shows "\<exists>col'. d' name = Some col' \<and> length col' = length col \<and> (\<forall>k. k \<noteq> i \<longrightarrow> col' ! k = col ! k)"
proof -
  from assms(1) have "rel_option (\<lambda>col col'. length col' = length col \<and> (\<forall>k. k \<noteq> i \<longrightarrow> col' ! k = col ! k))
        (d name) (d' name)" by (simp add: rows_kept_def)
  with assms(2) show ?thesis by (cases "d' name") simp_all
qed

lemma rows_kept_SomeD2:
  assumes "rows_kept i d d'" and "d' name = Some col'"
  shows "\<exists>col. d name = Some col \<and> length col' = length col \<and> (\<forall>k. k \<noteq> i \<longrightarrow> col' ! k = col ! k)"
proof -
  from assms(1) have "rel_option (\<lambda>col col'. length col' = length col \<and> (\<forall>k. k \<noteq> i \<longrightarrow> col' ! k = col ! k))
        (d name) (d' name)" by (simp add: rows_kept_def)
  with assms(2) show ?thesis by (cases "d name") simp_all
qed

lemma store_params_other:
  "store_params ps q im ip h i d = Inr d' \<Longrightarrow> p \<notin> set ps \<Longrightarrow> d' p = d p"
proof (induction ps arbitrary: d)
  case Nil
  then show ?case by simp
next
  case (Cons x ps)
  from Cons.prems(1) obtain d1 v where
    "store d x i v = Inr d1" "store_params ps q im ip h i d1 = Inr d'"
    by (auto simp: bind_res_Inr_iff)
  with Cons.IH [of d1] Cons.prems(2) show ?case by (auto simp: store_Inr_iff)
qed

lemma store_params_rows_kept:
  "store_params ps q im ip h i d = Inr d' \<Longrightarrow> rows_kept i d d'"
proof (induction ps arbitrary: d)
  case Nil
  then show ?case by (simp add: rows_kept_refl)
next
  case (Cons x ps)
  from Cons.prems(1) obtain d1 v where
    "store d x i v = Inr d1" "store_params ps q im ip h i d1 = Inr d'"
    by (auto simp: bind_res_Inr_iff)
  then have "rows_kept i d d1" "rows_kept i d1 d'"
    using rows_kept_store [of d x i v d1] Cons.IH [of d1] by simp_all
  then show ?case by (rule rows_kept_trans)
qed

lemma store_params_value:
  "store_params ps q im ip h i d = Inr d' \<Longrightarrow> p \<in> set ps \<Longrightarrow>
     \<exists>col col'. q p = Some col \<and> im < length col \<and> ip < length col \<and> d' p = Some col'
        \<and> i < length col' \<and> col' ! i = interpolate h (col ! im) (col ! ip)"
proof (induction ps arbitrary: d)
  case Nil
  then show ?case by simp
next
  case (Cons x ps)
  from Cons.prems(1) obtain col c d1 where
    x: "q x = Some col" "im < length col" "ip < length col"
       "d x = Some c" "i < length c"
       "d1 = d(x \<mapsto> c[i := interpolate h (col ! im) (col ! ip)])"
       "store_params ps q im ip h i d1 = Inr d'"
    by (auto simp: bind_res_Inr_iff store_Inr_iff)
  show ?case
  proof (cases "p \<in> set ps")
    case True
    from Cons.IH [OF x(7) True] show ?thesis .
  next
    case False
    with Cons.prems(2) have px: "p = x" by simp
    from store_params_other [OF x(7) False] px x(6) have "d' p = Some (c[i := interpolate h (col ! im) (col ! ip)])"
      by simp
    with px x show ?thesis by simp
  qed
qed

lemma store_params_ok:
  assumes "\<forall>p\<in>set ps. \<exists>col. q p = Some col \<and> im < length col \<and> ip < length col"
      and "\<forall>p\<in>set ps. \<exists>c. d p = Some c \<and> i < length c"
  shows "\<exists>d'. store_params ps q im ip h i d = Inr d'"
  using assms
proof (induction ps arbitrary: d)
  case Nil
  then show ?case by simp
next
  case (Cons x ps)
  from Cons.prems obtain col c where
    x: "q x = Some col" "im < length col" "ip < length col" "d x = Some c" "i < length c"
    by fastforce
  let ?d1 = "d(x \<mapsto> c[i := interpolate h (col ! im) (col ! ip)])"
  have p2: "\<forall>p\<in>set ps. \<exists>c. ?d1 p = Some c \<and> i < length c"
    using Cons.prems(2) x by auto
  have p1: "\<forall>p\<in>set ps. \<exists>col. q p = Some col \<and> im < length col \<and> ip < length col"
    using Cons.prems(1) by simp
  from Cons.IH [OF p1 p2] obtain d' where "store_params ps q im ip h i ?d1 = Inr d'"
    by blast
  with x show ?case by (simp add: store_def lookup_def item_def)
qed

subsection \<open>Bracketing, interpolation and the mass draw\<close>

lemma set_np_where: "set (np_where P a) = {i. i < length a \<and> P (a ! i)}"
  by (auto simp: np_where_def)

lemma sorted_np_where: "sorted (np_where P a)"
  by (simp add: np_where_def sorted_wrt_filter)

lemma sorted_le_last: "sorted xs \<Longrightarrow> x \<in> set xs \<Longrightarrow> x \<le> last (xs :: nat list)"
  by (induction xs) (auto split: if_splits)

lemma sorted_first_le: "sorted xs \<Longrightarrow> x \<in> set xs \<Longrightarrow> xs ! 0 \<le> (x :: nat)"
  by (cases xs) auto

lemma bracket_InrD:
  assumes "bracket q_mass m = Inr (im, ip, h)"
  shows "im < length q_mass \<and> ip < length q_mass \<and> q_mass ! im \<le> m \<and> m < q_mass ! ip
     \<and> (\<forall>j<length q_mass. q_mass ! j \<le> m \<longrightarrow> j \<le> im)
     \<and> (\<forall>j<length q_mass. m < q_mass ! j \<longrightarrow> ip \<le> j)
     \<and> h = fl_div (fl_sub m (q_mass ! im)) (fl_sub (q_mass ! ip) (q_mass ! im))"
proof -
  let ?lo = "np_where (\<lambda>x. x \<le> m) q_mass" and ?hi = "np_where (\<lambda>x. x > m) q_mass"
  from assms have lo: "?lo \<noteq> []" "im = last ?lo" and hi: "?hi \<noteq> []" "ip = ?hi ! 0"
    and h: "h = fl_div (fl_sub m (q_mass ! im)) (fl_sub (q_mass ! ip) (q_mass ! im))"
    by (auto simp: bracket_def bind_res_Inr_iff)
  from lo have "im \<in> set ?lo" by simp
  then have 1: "im < length q_mass" "q_mass ! im \<le> m" by (simp_all add: set_np_where)
  from hi have "ip \<in> set ?hi" by (cases ?hi) simp_all
  then have 2: "ip < length q_mass" "m < q_mass ! ip" by (simp_all add: set_np_where)
  have 3: "j \<le> im" if "j < length q_mass" "q_mass ! j \<le> m" for j
  proof -
    from that have "j \<in> set ?lo" by (simp add: set_np_where)
    from sorted_le_last [OF sorted_np_where this] lo(2) show ?thesis by simp
  qed
  have 4: "ip \<le> j" if "j < length q_mass" "m < q_mass ! j" for j
  proof -
    from that have "j \<in> set ?hi" by (simp add: set_np_where)
    from sorted_first_le [OF sorted_np_where this] hi(2) show ?thesis by simp
  qed
  from 1 2 3 4 h show ?thesis by blast
qed

lemma bracket_ok:
  assumes "i0 < length q_mass" "q_mass ! i0 \<le> m" "i1 < length q_mass" "m < q_mass ! i1"
  shows "\<exists>im ip h. bracket q_mass m = Inr (im, ip, h)"
proof -
  have "i0 \<in> set (np_where (\<lambda>x. x \<le> m) q_mass)" using assms(1,2) by (simp add: set_np_where)
  then have lo: "np_where (\<lambda>x. x \<le> m) q_mass \<noteq> []" by auto
  have "i1 \<in> set (np_where (\<lambda>x. x > m) q_mass)" using assms(3,4) by (simp add: set_np_where)
  then have hi: "np_where (\<lambda>x. x > m) q_mass \<noteq> []" by auto
  from lo hi show ?thesis by (simp add: bracket_def last_item_def item_def)
qed

lemma bracket_sorted_next:
  assumes b: "bracket q_mass m = Inr (im, ip, h)" and s: "sorted q_mass"
  shows "ip = Suc im"
proof -
  note d = bracket_InrD [OF b]
  have "im < ip"
  proof (rule ccontr)
    assume "\<not> im < ip"
    then have "ip \<le> im" by simp
    with s d have "q_mass ! ip \<le> q_mass ! im" by (simp add: sorted_iff_nth_mono)
    with d show False by simp
  qed
  then have lt: "Suc im < length q_mass" using d by simp
  have "\<not> q_mass ! Suc im \<le> m"
  proof
    assume "q_mass ! Suc im \<le> m"
    with d lt have "Suc im \<le> im" by blast
    then show False by simp
  qed
  with d lt have "ip \<le> Suc im" by simp
  with \<open>im < ip\<close> show ?thesis by simp
qed

lemma bracket_weight:
  assumes "bracket q_mass m = Inr (im, ip, h)"
  shows "0 \<le> h \<and> h \<le> 1"
proof -
  note d = bracket_InrD [OF assms]
  then have "q_mass ! im \<le> m" "m \<le> q_mass ! ip" by simp_all
  from fl_weight [OF this] d show ?thesis by simp
qed

lemma combination_between:
  assumes "0 \<le> h" "h \<le> 1"
  shows "min vm vp \<le> (1 - h) * vm + h * vp \<and> (1 - h) * vm + h * vp \<le> max vm (vp :: real)"
proof -
  have a: "(1 - h) * vm + h * vp = vm + h * (vp - vm)" by (simp add: algebra_simps)
  have b: "(1 - h) * vm + h * vp = vp - (1 - h) * (vp - vm)" by (simp add: algebra_simps)
  show ?thesis
  proof (cases "vm \<le> vp")
    case True
    then have "0 \<le> h * (vp - vm)" "0 \<le> (1 - h) * (vp - vm)" using assms by simp_all
    with True a b show ?thesis by (simp add: min_def max_def)
  next
    case False
    then have "h * (vp - vm) \<le> 0" "(1 - h) * (vp - vm) \<le> 0"
      using assms by (simp_all add: mult_nonneg_nonpos)
    with False a b show ?thesis by (simp add: min_def max_def)
  qed
qed

lemma interpolate_error:
  assumes h: "0 \<le> h" "h \<le> 1" and M: "\<bar>vm\<bar> \<le> M" "\<bar>vp\<bar> \<le> M"
  shows "\<bar>interpolate h vm vp - ((1 - h) * vm + h * vp)\<bar> \<le> 6 * M / 2 ^ 53 + 1 / 2 ^ 1073"
proof -
  define eps :: real where "eps = 1 / 2 ^ 53"
  define eta :: real where "eta = 1 / 2 ^ 1075"
  define a1 where "a1 = fl64 (1 - h)"
  define p1 where "p1 = fl64 (a1 * vm)"
  define p2 where "p2 = fl64 (h * vp)"
  define r where "r = fl64 (p1 + p2)"
  have r: "interpolate h vm vp = r"
    by (simp add: interpolate_def fl_add_def fl_mul_def fl_sub_def r_def p1_def p2_def a1_def)
  have eps: "0 < eps" "eps \<le> 1 / 2"
  proof -
    show "0 < eps" by (simp add: eps_def)
    have "(2::real) ^ 1 \<le> 2 ^ 53" by (intro power_increasing) simp_all
    then show "eps \<le> 1 / 2" by (simp add: eps_def field_simps)
  qed
  have eta: "0 < eta" by (simp add: eta_def)
  have M0: "0 \<le> M" using M(1) by linarith
  have err: "\<bar>fl64 x - x\<bar> \<le> eps * \<bar>x\<bar> + eta" for x
    using fl64_error_sum [of x] by (simp add: eps_def eta_def)
  have a1: "0 \<le> a1" "a1 \<le> 1"
    using h by (simp_all add: a1_def fl64_nonneg fl64_le_one)
  have e1: "\<bar>a1 - (1 - h)\<bar> \<le> eps"
    using fl64_error_unit [of "1 - h"] h by (simp add: a1_def eps_def)
  have b1: "\<bar>a1 * vm\<bar> \<le> M"
  proof -
    have "\<bar>a1\<bar> * \<bar>vm\<bar> \<le> 1 * M" using a1 M(1) by (intro mult_mono) simp_all
    then show ?thesis by (simp add: abs_mult)
  qed
  have b2: "\<bar>h * vp\<bar> \<le> M"
  proof -
    have "\<bar>h\<bar> * \<bar>vp\<bar> \<le> 1 * M" using h M(2) by (intro mult_mono) simp_all
    then show ?thesis by (simp add: abs_mult)
  qed
  have e2: "\<bar>p1 - a1 * vm\<bar> \<le> eps * M + eta"
  proof -
    have "eps * \<bar>a1 * vm\<bar> \<le> eps * M" using b1 eps by (intro mult_left_mono) simp_all
    with err [of "a1 * vm"] show ?thesis by (simp add: p1_def)
  qed
  have e3: "\<bar>p2 - h * vp\<bar> \<le> eps * M + eta"
  proof -
    have "eps * \<bar>h * vp\<bar> \<le> eps * M" using b2 eps by (intro mult_left_mono) simp_all
    with err [of "h * vp"] show ?thesis by (simp add: p2_def)
  qed
  have s: "\<bar>p1 + p2\<bar> \<le> 2 * M + 2 * (eps * M) + 2 * eta"
    using b1 b2 e2 e3 by linarith
  have e4: "\<bar>r - (p1 + p2)\<bar> \<le> 2 * (eps * M) + 2 * (eps * (eps * M)) + 2 * (eps * eta) + eta"
  proof -
    have "eps * \<bar>p1 + p2\<bar> \<le> eps * (2 * M + 2 * (eps * M) + 2 * eta)"
      using s eps by (intro mult_left_mono) simp_all
    with err [of "p1 + p2"] show ?thesis by (simp add: r_def algebra_simps)
  qed
  have e5: "\<bar>(a1 - (1 - h)) * vm\<bar> \<le> eps * M"
  proof -
    have "\<bar>a1 - (1 - h)\<bar> * \<bar>vm\<bar> \<le> eps * M" using e1 M(1) M0 by (intro mult_mono) simp_all
    then show ?thesis by (simp add: abs_mult)
  qed
  have X0: "0 \<le> eps * M" using eps M0 by simp
  have X2: "eps * (eps * M) \<le> (eps * M) / 2"
    using mult_right_mono [OF eps(2) X0] by simp
  have X3: "eps * eta \<le> eta / 2"
    using mult_right_mono [OF eps(2), of eta] eta by simp
  have "r - ((1 - h) * vm + h * vp)
      = (r - (p1 + p2)) + (p1 - a1 * vm) + (a1 - (1 - h)) * vm + (p2 - h * vp)"
    by (simp add: algebra_simps)
  then have "\<bar>r - ((1 - h) * vm + h * vp)\<bar>
      \<le> \<bar>r - (p1 + p2)\<bar> + \<bar>p1 - a1 * vm\<bar> + \<bar>(a1 - (1 - h)) * vm\<bar> + \<bar>p2 - h * vp\<bar>"
    by linarith
  with e4 e2 e5 e3 X2 X3 have "\<bar>r - ((1 - h) * vm + h * vp)\<bar> \<le> 6 * (eps * M) + 4 * eta"
    by linarith
  moreover have "4 * eta = 1 / 2 ^ 1073"
    by (simp add: eta_def)
  ultimately show ?thesis using r by (simp add: eps_def)
qed

lemma interpolate_near_between:
  assumes "0 \<le> h" "h \<le> 1"
  shows "min vm vp - rounding_slack vm vp \<le> interpolate h vm vp
     \<and> interpolate h vm vp \<le> max vm vp + rounding_slack vm vp"
proof -
  from interpolate_error [OF assms, of vm "max \<bar>vm\<bar> \<bar>vp\<bar>" vp]
  have "\<bar>interpolate h vm vp - ((1 - h) * vm + h * vp)\<bar> \<le> rounding_slack vm vp"
    by (simp add: rounding_slack_def)
  with combination_between [OF assms, of vm vp] show ?thesis by linarith
qed

lemma imf_factor_ge_one:
  assumes "imf_factor u alpha = Inr f" "1 < alpha" "0 < u" "u < 1"
  shows "1 \<le> f"
proof -
  from assms have f: "f = u powr (- 1 / (alpha - 1))"
    by (auto simp: imf_factor_def Let_def split: if_splits)
  have "- 1 / (alpha - 1) \<le> 0" using assms by simp
  moreover have "ln u \<le> 0" using assms by simp
  ultimately have "0 \<le> (- 1 / (alpha - 1)) * ln u" by (rule mult_nonpos_nonpos)
  then have "1 \<le> exp ((- 1 / (alpha - 1)) * ln u)" by simp
  with f assms(3) show ?thesis by (simp add: powr_def)
qed

lemma min_mass_InrD:
  assumes "min_mass a q logT sp feh i = Inr (m_min, ph)"
  shows "\<exists>mini idx. q ''Mini'' = Some mini \<and> idx < length mini \<and> m_min = mini ! idx
     \<and> ph = (if real i < forcing_threshold a then 0 else 1)"
  using assms
  by (auto simp: min_mass_def Let_def bind_res_Inr_iff split: if_splits)

lemma draw_candidate_InrD:
  assumes "draw_candidate np grid a aux i s = Inr c"
  shows "\<exists>mini idx s2 f. cand_q c ''Mini'' = Some mini \<and> idx < length mini
     \<and> cand_m_min c = mini ! idx
     \<and> cand_phase c = (if real i < forcing_threshold a then 0 else 1)
     \<and> imf_factor (fst (random_sample np s2)) (IMF_alpha a) = Inr f
     \<and> cand_m c = cand_m_min c * f"
  using assms
  by (auto simp: draw_candidate_def bind_res_Inr_iff case_prod_beta dest!: min_mass_InrD) blast+

lemma accept_or_reject_InrD:
  assumes "accept_or_reject grid st c = Inr st'"
  shows "\<exists>q_mass. cand_q c ''Mini'' = Some q_mass \<and> q_mass \<noteq> []
     \<and> rng st' = cand_rng c \<and> phase_i st' = cand_phase c
     \<and> (if cand_m c < last q_mass then
          iv st' = iv st + 1 \<and> ne st' = ne st
          \<and> (\<exists>im ip h d1 c1 c2.
                bracket q_mass (cand_m c) = Inr (im, ip, h)
              \<and> store_params (params grid) (cand_q c) im ip h (iv st) (data st) = Inr d1
              \<and> d1 ''age'' = Some c1 \<and> iv st < length c1
              \<and> (d1(''age'' \<mapsto> c1[iv st := cand_iso_age c])) ''phase'' = Some c2
              \<and> iv st < length c2
              \<and> data st' = (d1(''age'' \<mapsto> c1[iv st := cand_iso_age c]))
                   (''phase'' \<mapsto> c2[iv st := real (cand_phase c)]))
        else iv st' = iv st \<and> ne st' = ne st + 1 \<and> data st' = data st)"
proof -
  from assms obtain q_mass where q: "cand_q c ''Mini'' = Some q_mass" "q_mass \<noteq> []"
    and r: "(if cand_m c < last q_mass then
       bind_res (bracket q_mass (cand_m c)) (\<lambda>(im, ip, h).
       bind_res (store_params (params grid) (cand_q c) im ip h (iv st) (data st)) (\<lambda>d1.
       bind_res (store d1 ''age'' (iv st) (cand_iso_age c)) (\<lambda>d2.
       bind_res (store d2 ''phase'' (iv st) (real (cand_phase c))) (\<lambda>d3.
       Inr (st\<lparr>iv := iv st + 1, phase_i := cand_phase c, data := d3, rng := cand_rng c\<rparr>)))))
     else Inr (st\<lparr>ne := ne st + 1, phase_i := cand_phase c, rng := cand_rng c\<rparr>)) = Inr st'"
    by (auto simp: accept_or_reject_def bind_res_Inr_iff)
  show ?thesis
  proof (cases "cand_m c < last q_mass")
    case False
    with r have "st' = st\<lparr>ne := ne st + 1, phase_i := cand_phase c, rng := cand_rng c\<rparr>" by simp
    with q False show ?thesis by simp
  next
    case True
    with r obtain im ip h d1 d2 d3 where
      b: "bracket q_mass (cand_m c) = Inr (im, ip, h)" and
      sp: "store_params (params grid) (cand_q c) im ip h (iv st) (data st) = Inr d1" and
      s2: "store d1 ''age'' (iv st) (cand_iso_age c) = Inr d2" and
      s3: "store d2 ''phase'' (iv st) (real (cand_phase c)) = Inr d3" and
      st': "st' = st\<lparr>iv := iv st + 1, phase_i := cand_phase c, data := d3, rng := cand_rng c\<rparr>"
      by (auto simp: bind_res_Inr_iff)
    from s2 obtain c1 where c1: "d1 ''age'' = Some c1" "iv st < length c1"
      "d2 = d1(''age'' \<mapsto> c1[iv st := cand_iso_age c])" by (auto simp: store_Inr_iff)
    from s3 obtain c2 where c2: "d2 ''phase'' = Some c2" "iv st < length c2"
      "d3 = d2(''phase'' \<mapsto> c2[iv st := real (cand_phase c)])" by (auto simp: store_Inr_iff)
    have "\<exists>im ip h d1 c1 c2.
                bracket q_mass (cand_m c) = Inr (im, ip, h)
              \<and> store_params (params grid) (cand_q c) im ip h (iv st) (data st) = Inr d1
              \<and> d1 ''age'' = Some c1 \<and> iv st < length c1
              \<and> (d1(''age'' \<mapsto> c1[iv st := cand_iso_age c])) ''phase'' = Some c2
              \<and> iv st < length c2
              \<and> data st' = (d1(''age'' \<mapsto> c1[iv st := cand_iso_age c]))
                   (''phase'' \<mapsto> c2[iv st := real (cand_phase c)])"
      using b sp c1 c2 st' by (intro exI [of _ im] exI [of _ ip] exI [of _ h] exI [of _ d1]
          exI [of _ c1] exI [of _ c2]) simp
    with q True st' show ?thesis by simp
  qed
qed

lemma accepted_rows:
  assumes "accept_or_reject grid st c = Inr st'" and "iv st' = iv st + 1"
  shows "rows_kept (iv st) (data st) (data st')
     \<and> (\<exists>col. data st' ''phase'' = Some col \<and> iv st < length col
            \<and> col ! iv st = real (cand_phase c))"
proof -
  from accept_or_reject_InrD [OF assms(1)] assms(2) obtain im ip h d1 c1 c2 where
    sp: "store_params (params grid) (cand_q c) im ip h (iv st) (data st) = Inr d1" and
    c1: "d1 ''age'' = Some c1" "iv st < length c1" and
    c2: "(d1(''age'' \<mapsto> c1[iv st := cand_iso_age c])) ''phase'' = Some c2" "iv st < length c2" and
    d: "data st' = (d1(''age'' \<mapsto> c1[iv st := cand_iso_age c]))
                   (''phase'' \<mapsto> c2[iv st := real (cand_phase c)])"
    by (auto split: if_splits)
  let ?d2 = "d1(''age'' \<mapsto> c1[iv st := cand_iso_age c])"
  have "store d1 ''age'' (iv st) (cand_iso_age c) = Inr ?d2"
    using c1 by (simp add: store_Inr_iff)
  then have k2: "rows_kept (iv st) d1 ?d2" by (rule rows_kept_store)
  have "store ?d2 ''phase'' (iv st) (real (cand_phase c)) = Inr (data st')"
    using c2 d by (simp add: store_Inr_iff)
  then have k3: "rows_kept (iv st) ?d2 (data st')" by (rule rows_kept_store)
  from store_params_rows_kept [OF sp] k2 k3 have "rows_kept (iv st) (data st) (data st')"
    using rows_kept_trans by blast
  moreover have "\<exists>col. data st' ''phase'' = Some col \<and> iv st < length col
            \<and> col ! iv st = real (cand_phase c)"
    using d c2 by simp
  ultimately show ?thesis by blast
qed

lemma accept_or_reject_ok:
  assumes q: "cand_q c ''Mini'' = Some q_mass"
      and node: "i0 < length q_mass" "q_mass ! i0 \<le> cand_m c"
      and wf_q: "\<forall>p\<in>set (params grid). \<exists>col. cand_q c p = Some col \<and> length col = length q_mass"
      and wf_d: "\<forall>p\<in>set (params grid @ [''age'', ''phase'']).
                   \<exists>col. data st p = Some col \<and> iv st < length col"
  shows "\<exists>st'. accept_or_reject grid st c = Inr st'"
proof (cases "cand_m c < last q_mass")
  case False
  from node(1) have "q_mass \<noteq> []" by auto
  with q False show ?thesis by (simp add: accept_or_reject_def lookup_def last_item_def)
next
  case True
  from node(1) have ne: "q_mass \<noteq> []" by auto
  then have "length q_mass - 1 < length q_mass" "q_mass ! (length q_mass - 1) = last q_mass"
    by (simp_all add: last_conv_nth)
  with True bracket_ok [OF node, of "length q_mass - 1"] obtain im ip h where
    b: "bracket q_mass (cand_m c) = Inr (im, ip, h)" by auto
  note bd = bracket_InrD [OF b]
  have "\<forall>p\<in>set (params grid). \<exists>col. cand_q c p = Some col \<and> im < length col \<and> ip < length col"
    using wf_q bd by fastforce
  moreover have "\<forall>p\<in>set (params grid). \<exists>col. data st p = Some col \<and> iv st < length col"
    using wf_d by simp
  ultimately obtain d1 where
    sp: "store_params (params grid) (cand_q c) im ip h (iv st) (data st) = Inr d1"
    using store_params_ok by blast
  note k1 = store_params_rows_kept [OF sp]
  from wf_d obtain a0 where "data st ''age'' = Some a0" "iv st < length a0" by auto
  with rows_kept_SomeD [OF k1] obtain c1 where c1: "d1 ''age'' = Some c1" "iv st < length c1"
    by fastforce
  let ?d2 = "d1(''age'' \<mapsto> c1[iv st := cand_iso_age c])"
  from wf_d obtain p0 where "data st ''phase'' = Some p0" "iv st < length p0" by auto
  with rows_kept_SomeD [OF k1] obtain p1 where p1: "d1 ''phase'' = Some p1" "iv st < length p1"
    by fastforce
  then obtain c2 where c2: "?d2 ''phase'' = Some c2" "iv st < length c2" by simp
  from q ne True b sp c1 c2 show ?thesis
    by (simp add: accept_or_reject_def lookup_def last_item_def store_def)
qed

subsection \<open>One pass\<close>

text \<open>
  C4. Take a pass whose candidate \<open>c\<close> has been drawn, on a track whose arrays have the
  length of its mass array and whose masses are not negative, with \<open>IMF_alpha > 1\<close>,
  uniform draws inside (0,1) and room in the output arrays. The drawn mass is at least
  the mass floor. The pass raises nothing and accepts exactly when the mass is below the
  last (largest) mass of the track: then the accepted count grows by one and
  \<open>m_min \<le> m < track maximum\<close>; otherwise the discarded count grows by one and the data
  stay as they were. In both cases the loop goes on from the new state.
\<close>

theorem accept_iff_below_track_maximum:
  assumes cand: "draw_candidate np grid a aux (iv st) (rng st) = Inr c"
      and q: "cand_q c ''Mini'' = Some q_mass"
      and wf_q: "\<forall>p\<in>set (params grid). \<exists>col. cand_q c p = Some col \<and> length col = length q_mass"
      and wf_d: "\<forall>p\<in>set (params grid @ [''age'', ''phase'']).
                   \<exists>col. data st p = Some col \<and> iv st < length col"
      and alpha: "1 < IMF_alpha a"
      and mass: "\<forall>x\<in>set q_mass. 0 \<le> x"
      and unif: "\<forall>s. 0 < fst (random_sample np s) \<and> fst (random_sample np s) < 1"
  shows "cand_m_min c \<le> cand_m c
     \<and> (\<exists>st'. attempt np grid a aux st = Inr st'
          \<and> (if cand_m c < last q_mass
             then iv st' = iv st + 1 \<and> ne st' = ne st
                  \<and> cand_m_min c \<le> cand_m c \<and> cand_m c < last q_mass
             else iv st' = iv st \<and> ne st' = ne st + 1 \<and> data st' = data st)
          \<and> (int (iv st) < ns a \<longrightarrow>
               sampling_loop np grid a aux st = sampling_loop np grid a aux st'))"
proof -
  from draw_candidate_InrD [OF cand] q obtain idx s2 f where
    idx: "idx < length q_mass" "cand_m_min c = q_mass ! idx" and
    f: "imf_factor (fst (random_sample np s2)) (IMF_alpha a) = Inr f" and
    m: "cand_m c = cand_m_min c * f"
    by auto
  from imf_factor_ge_one [OF f alpha] unif have f1: "1 \<le> f" by blast
  from idx mass have "0 \<le> cand_m_min c" by simp
  with f1 m have le: "cand_m_min c \<le> cand_m c"
    using mult_left_mono [of 1 f "cand_m_min c"] by simp
  from le idx have node: "q_mass ! idx \<le> cand_m c" by simp
  from accept_or_reject_ok [OF q idx(1) node wf_q wf_d] obtain st' where
    acc: "accept_or_reject grid st c = Inr st'" by blast
  with cand have att: "attempt np grid a aux st = Inr st'" by (simp add: attempt_def)
  from accept_or_reject_InrD [OF acc] q le
  have res: "if cand_m c < last q_mass
             then iv st' = iv st + 1 \<and> ne st' = ne st
                  \<and> cand_m_min c \<le> cand_m c \<and> cand_m c < last q_mass
             else iv st' = iv st \<and> ne st' = ne st + 1 \<and> data st' = data st"
    by (auto split: if_splits)
  have loop: "sampling_loop np grid a aux st = sampling_loop np grid a aux st'"
    if "int (iv st) < ns a"
    using that att by (subst sampling_loop.simps) simp
  from le att res loop show ?thesis by blast
qed

lemma forcing_threshold_no_giants:
  assumes "\<bar>n\<bar> < 2 ^ 53"
  shows "forcing_threshold (toy_args n 0) = real_of_int n"
  using fl64_of_int [OF assms]
  by (simp add: forcing_threshold_def fl_mul_def fl_sub_def toy_args_def)

lemma toy_split: "split_ind [3, 2, 1, 0] = Inr 1"
  by (simp add: split_ind_def low_inds_def temperatures_def diff_def argsort_def upt_rec
      int_median_def Let_def)

lemma toy_draw_age:
  "draw_age (const_rng u z) (t_bursts (toy_args n g)) SingleBurst s = Inr (1 + 9 * u, Suc s)"
  by (simp add: draw_age_def toy_args_def item_def)

lemma toy_normal:
  "normal (const_rng u z) (feh_mean (toy_args n g)) (feh_disp (toy_args n g)) s
     = Inr (z / 10, Suc s)"
  by (simp add: normal_def toy_args_def)

lemma toy_get_isochrone:
  "get_isochrone toy_grid al feh age = Inr (toy_track, (al, feh, age))"
  by (simp add: toy_grid_def)

lemma toy_track_simps [simp]:
  "toy_track ''logT'' = Some [3, 2, 1, 0]" "toy_track ''Mini'' = Some [1, 2, 3, 4]"
  by (simp_all add: toy_track_def)

lemma toy_min_mass:
  "min_mass (toy_args n g) toy_track [3, 2, 1, 0] (Suc 0) feh i =
     Inr (if real i < forcing_threshold (toy_args n g) then (1, 0) else (2, 1))"
  by (simp add: min_mass_def toy_args_def argmin_def temperatures_def lookup_def item_def)

lemma float64_overflow_gt: "2 < float64_overflow"
proof -
  have "(2::real) ^ 970 * 2 \<le> 2 ^ 970 * 2 ^ 54" by (intro mult_left_mono) simp_all
  also have "\<dots> = 2 ^ 1024" by (simp add: power_add [symmetric])
  finally have "(2::real) ^ 970 + 2 ^ 970 \<le> 2 ^ 1024" by simp
  moreover have "(2::real) < 2 ^ 970" using power_strict_increasing [of 1 970 "2::real"] by simp
  ultimately show ?thesis by (simp add: float64_overflow_def)
qed

lemma toy_imf_factor:
  "1 / 2 \<le> u \<Longrightarrow> imf_factor u (IMF_alpha (toy_args n g)) = Inr (1 / u)"
proof -
  assume u: "1 / 2 \<le> u"
  then have "1 / u \<le> 2" by (simp add: field_simps)
  with float64_overflow_gt have "\<not> float64_overflow \<le> 1 / u" by simp
  with u show ?thesis by (simp add: imf_factor_def toy_args_def powr_minus_divide)
qed

lemma toy_candidate:
  "1 / 2 \<le> u \<Longrightarrow> draw_candidate (const_rng u z) toy_grid (toy_args n g) SingleBurst i s =
     Inr \<lparr>cand_q = toy_track, cand_iso_age = 1 + 9 * u,
          cand_m_min = (if real i < forcing_threshold (toy_args n g) then 1 else 2),
          cand_phase = (if real i < forcing_threshold (toy_args n g) then 0 else 1),
          cand_m = (if real i < forcing_threshold (toy_args n g) then 1 else 2) / u,
          cand_rng = s + 3\<rparr>"
  by (simp add: draw_candidate_def toy_draw_age toy_normal toy_get_isochrone lookup_def
      toy_split toy_min_mass toy_imf_factor)

lemma toy_wf_q:
  "\<forall>p\<in>set (params toy_grid). \<exists>col. toy_track p = Some col \<and> length col = length [1, 2, 3, 4 :: real]"
  by (simp add: toy_grid_def)

lemma toy_wf_d:
  "i < n \<Longrightarrow> \<forall>p\<in>set (params toy_grid @ [''age'', ''phase'']).
      \<exists>col. data ((toy_state n)\<lparr>iv := i\<rparr>) p = Some col \<and> iv ((toy_state n)\<lparr>iv := i\<rparr>) < length col"
  by (simp add: toy_grid_def toy_state_def)

text \<open>C4 on the toy grid: a dwarf draw of mass 3/2 is accepted.\<close>

theorem accept_iff_below_track_maximum_witness:
  "draw_candidate (const_rng (2/3) 0) toy_grid (toy_args 1 0) SingleBurst
      (iv (toy_state 1)) (rng (toy_state 1))
     = Inr \<lparr>cand_q = toy_track, cand_iso_age = 7, cand_m_min = 1, cand_phase = 0,
            cand_m = 3/2, cand_rng = 3\<rparr>
   \<and> 1 < IMF_alpha (toy_args 1 0)
   \<and> (\<exists>st'. attempt (const_rng (2/3) 0) toy_grid (toy_args 1 0) SingleBurst (toy_state 1)
                = Inr st' \<and> iv st' = 1 \<and> ne st' = 0)"
proof -
  let ?c = "\<lparr>cand_q = toy_track, cand_iso_age = 7, cand_m_min = 1, cand_phase = 0,
            cand_m = 3/2, cand_rng = 3 :: nat\<rparr>"
  have cand: "draw_candidate (const_rng (2/3) 0) toy_grid (toy_args 1 0) SingleBurst
      (iv (toy_state 1)) (rng (toy_state 1)) = Inr ?c"
    by (simp add: toy_candidate toy_state_def forcing_threshold_no_giants)
  have q: "cand_q ?c ''Mini'' = Some [1, 2, 3, 4]" by simp
  have wf_q: "\<forall>p\<in>set (params toy_grid). \<exists>col. cand_q ?c p = Some col
      \<and> length col = length [1, 2, 3, 4 :: real]"
    using toy_wf_q by simp
  have wf_d: "\<forall>p\<in>set (params toy_grid @ [''age'', ''phase'']).
      \<exists>col. data (toy_state 1) p = Some col \<and> iv (toy_state 1) < length col"
    by (simp add: toy_grid_def toy_state_def)
  have alpha: "1 < IMF_alpha (toy_args 1 0)" by (simp add: toy_args_def)
  have mass: "\<forall>x\<in>set [1, 2, 3, 4 :: real]. 0 \<le> x" by simp
  have unif: "\<forall>s. 0 < fst (random_sample (const_rng (2/3) 0) s)
      \<and> fst (random_sample (const_rng (2/3) 0) s) < 1" by simp
  from accept_iff_below_track_maximum [OF cand q wf_q wf_d alpha mass unif]
  have "\<exists>st'. attempt (const_rng (2/3) 0) toy_grid (toy_args 1 0) SingleBurst (toy_state 1)
                = Inr st' \<and> iv st' = 1 \<and> ne st' = 0"
    by (auto simp: toy_state_def)
  with cand alpha show ?thesis by blast
qed

lemma accepted_value:
  assumes acc: "accept_or_reject grid st c = Inr st'"
      and q: "cand_q c ''Mini'' = Some q_mass"
      and below: "cand_m c < last q_mass"
      and sorted: "sorted q_mass"
      and p: "p \<in> set (params grid)" "p \<noteq> ''age''" "p \<noteq> ''phase''"
  shows "\<exists>im h col row.
       Suc im < length q_mass \<and> q_mass ! im \<le> cand_m c \<and> cand_m c < q_mass ! Suc im
     \<and> (\<forall>j<length q_mass. q_mass ! j \<le> cand_m c \<longrightarrow> j \<le> im)
     \<and> h = fl_div (fl_sub (cand_m c) (q_mass ! im)) (fl_sub (q_mass ! Suc im) (q_mass ! im))
     \<and> 0 \<le> h \<and> h \<le> 1
     \<and> cand_q c p = Some col \<and> data st' p = Some row
     \<and> row ! iv st = interpolate h (col ! im) (col ! Suc im)"
proof -
  from accept_or_reject_InrD [OF acc] q below obtain im ip h d1 c1 c2 where
    b: "bracket q_mass (cand_m c) = Inr (im, ip, h)" and
    sp: "store_params (params grid) (cand_q c) im ip h (iv st) (data st) = Inr d1" and
    d: "data st' = (d1(''age'' \<mapsto> c1[iv st := cand_iso_age c]))
                   (''phase'' \<mapsto> c2[iv st := real (cand_phase c)])"
    by auto
  have ip: "ip = Suc im" using bracket_sorted_next [OF b sorted] .
  note bd = bracket_InrD [OF b, unfolded ip]
  note w = bracket_weight [OF b]
  from store_params_value [OF sp p(1)] ip obtain col row where
    col: "cand_q c p = Some col" and row: "d1 p = Some row"
    and v: "row ! iv st = interpolate h (col ! im) (col ! Suc im)"
    by auto
  from d p(2,3) row have row': "data st' p = Some row" by simp
  show ?thesis
    using bd w col row' v
    by (intro exI [of _ im] exI [of _ h] exI [of _ col] exI [of _ row]) simp
qed

text \<open>
  C5 (as the code has it). On acceptance, with the masses of the track in non-decreasing
  order: \<open>im\<close> is the last node of mass \<open>\<le> m\<close> and the upper node is the next one,
  \<open>im + 1\<close>; the weight is \<open>h = (m - mass[im]) / (mass[im+1] - mass[im])\<close> evaluated in
  float64, in [0,1]; and for every grid parameter \<open>p\<close> (other than the names \<open>age\<close> and
  \<open>phase\<close>, which are written afterwards) row \<open>iv\<close> of the output holds the float64
  value of \<open>(1-h)*q[p][im] + h*q[p][im+1]\<close>. That value lies between the two node values
  up to the rounding of the four operations: it is no less than their minimum minus
  \<open>rounding_slack\<close> and no more than their maximum plus \<open>rounding_slack\<close>.
\<close>

theorem accepted_star_interpolated:
  assumes acc: "accept_or_reject grid st c = Inr st'"
      and q: "cand_q c ''Mini'' = Some q_mass"
      and below: "cand_m c < last q_mass"
      and sorted: "sorted q_mass"
      and p: "p \<in> set (params grid)" "p \<noteq> ''age''" "p \<noteq> ''phase''"
  shows "\<exists>im h col row.
       Suc im < length q_mass \<and> q_mass ! im \<le> cand_m c \<and> cand_m c < q_mass ! Suc im
     \<and> (\<forall>j<length q_mass. q_mass ! j \<le> cand_m c \<longrightarrow> j \<le> im)
     \<and> h = fl_div (fl_sub (cand_m c) (q_mass ! im)) (fl_sub (q_mass ! Suc im) (q_mass ! im))
     \<and> 0 \<le> h \<and> h \<le> 1
     \<and> cand_q c p = Some col \<and> data st' p = Some row
     \<and> row ! iv st = fl_add (fl_mul (fl_sub 1 h) (col ! im)) (fl_mul h (col ! Suc im))
     \<and> min (col ! im) (col ! Suc im) - rounding_slack (col ! im) (col ! Suc im) \<le> row ! iv st
     \<and> row ! iv st \<le> max (col ! im) (col ! Suc im) + rounding_slack (col ! im) (col ! Suc im)"
proof -
  from accepted_value [OF acc q below sorted p] obtain im h col row where
    bd: "Suc im < length q_mass" "q_mass ! im \<le> cand_m c" "cand_m c < q_mass ! Suc im"
        "\<forall>j<length q_mass. q_mass ! j \<le> cand_m c \<longrightarrow> j \<le> im" and
    h: "h = fl_div (fl_sub (cand_m c) (q_mass ! im)) (fl_sub (q_mass ! Suc im) (q_mass ! im))" and
    w: "0 \<le> h" "h \<le> 1" and
    col: "cand_q c p = Some col" and row: "data st' p = Some row" and
    v: "row ! iv st = interpolate h (col ! im) (col ! Suc im)"
    by blast
  from interpolate_near_between [OF w, of "col ! im" "col ! Suc im"] v
  have btw: "min (col ! im) (col ! Suc im) - rounding_slack (col ! im) (col ! Suc im) \<le> row ! iv st"
    "row ! iv st \<le> max (col ! im) (col ! Suc im) + rounding_slack (col ! im) (col ! Suc im)"
    by simp_all
  from v have v': "row ! iv st = fl_add (fl_mul (fl_sub 1 h) (col ! im)) (fl_mul h (col ! Suc im))"
    by (simp add: interpolate_def)
  show ?thesis
    using bd h w col row v' btw
    by (intro exI [of _ im] exI [of _ h] exI [of _ col] exI [of _ row]) simp
qed

text \<open>C5 on the toy grid: mass 3/2 lies half way between the first two nodes.\<close>

theorem accepted_star_interpolated_witness:
  "\<exists>st' row.
     accept_or_reject toy_grid (toy_state 1)
       \<lparr>cand_q = toy_track, cand_iso_age = 7, cand_m_min = 1, cand_phase = 0,
        cand_m = 3/2, cand_rng = 3\<rparr> = Inr st'
     \<and> sorted [1, 2, 3, 4 :: real]
     \<and> data st' ''logT'' = Some row \<and> row ! 0 = 5/2"
proof -
  let ?c = "\<lparr>cand_q = toy_track, cand_iso_age = 7, cand_m_min = 1, cand_phase = 0,
            cand_m = 3/2, cand_rng = 3 :: nat\<rparr>"
  have q: "cand_q ?c ''Mini'' = Some [1, 2, 3, 4]" by simp
  have wf_q: "\<forall>p\<in>set (params toy_grid). \<exists>col. cand_q ?c p = Some col
      \<and> length col = length [1, 2, 3, 4 :: real]"
    using toy_wf_q by simp
  have wf_d: "\<forall>p\<in>set (params toy_grid @ [''age'', ''phase'']).
      \<exists>col. data (toy_state 1) p = Some col \<and> iv (toy_state 1) < length col"
    by (simp add: toy_grid_def toy_state_def)
  have "\<exists>st'. accept_or_reject toy_grid (toy_state 1) ?c = Inr st'"
    by (rule accept_or_reject_ok [OF q _ _ wf_q wf_d, of 0]) simp_all
  then obtain st' where acc: "accept_or_reject toy_grid (toy_state 1) ?c = Inr st'" by blast
  have srt: "sorted [1, 2, 3, 4 :: real]" by simp
  have p: "''logT'' \<in> set (params toy_grid)" by (simp add: toy_grid_def)
  have below: "cand_m ?c < last [1, 2, 3, 4]" by simp
  have ne: "''logT'' \<noteq> ''age''" "''logT'' \<noteq> ''phase''" by simp_all
  from accepted_star_interpolated [OF acc q below srt p ne]
  obtain im h col row where
    im: "Suc im < length [1, 2, 3, 4 :: real]" "[1, 2, 3, 4] ! im \<le> cand_m ?c" and
    h: "h = fl_div (fl_sub (cand_m ?c) ([1, 2, 3, 4] ! im))
              (fl_sub ([1, 2, 3, 4] ! Suc im) ([1, 2, 3, 4] ! im))" and
    col: "cand_q ?c ''logT'' = Some col" and
    row: "data st' ''logT'' = Some row"
       "row ! iv (toy_state 1)
          = fl_add (fl_mul (fl_sub 1 h) (col ! im)) (fl_mul h (col ! Suc im))"
    by blast
  from im(1) have "im = 0 \<or> im = 1 \<or> im = 2" by auto
  with im(2) have im0: "im = 0" by auto
  with h have hv: "h = 1/2" by (simp add: fl_div_def fl_sub_def fl64_small_dyadics)
  from col have c: "col = [3, 2, 1, 0]" by simp
  from row(2) have "row ! 0 = fl_add (fl_mul (fl_sub 1 (1/2)) 3) (fl_mul (1/2) 2)"
    unfolding hv c im0 by (simp add: toy_state_def)
  then have "row ! 0 = 5/2"
    by (simp add: fl_add_def fl_mul_def fl_sub_def fl64_small_dyadics)
  with acc srt row(1) show ?thesis by blast
qed

lemma flat_track_simps [simp]:
  "flat_track ''Mini'' = Some [1 / 2, 3602879701896397 / 2 ^ 52, 8106479329266893 / 2 ^ 53, 1]"
  "flat_track ''FeHini'' = Some (replicate 4 (5764607523034235 / 2 ^ 58))"
  by (simp_all add: flat_track_def)

lemma flat_weight:
  "fl_div (fl_sub (7475975381435023 / 2 ^ 53) (3602879701896397 / 2 ^ 52))
          (fl_sub (8106479329266893 / 2 ^ 53) (3602879701896397 / 2 ^ 52))
     = 5404319552844581 / 2 ^ 54"
proof -
  have n: "fl64 (7475975381435023 / 2 ^ 53 - 3602879701896397 / 2 ^ 52) = 270215977642229 / 2 ^ 53"
    using fl64_dyadic [of 270215977642229 53] by simp
  have d: "fl64 (8106479329266893 / 2 ^ 53 - 3602879701896397 / 2 ^ 52) = 900719925474099 / 2 ^ 53"
    using fl64_dyadic [of 900719925474099 53] by simp
  have "fl64 (270215977642229 / 2 ^ 53 / (900719925474099 / 2 ^ 53)) = 5404319552844581 / 2 ^ 54"
    by (subst fl64_eval [of "- 2"]) (simp_all add: round_half_even_def)
  with n d show ?thesis by (simp only: fl_div_def fl_sub_def)
qed

lemma flat_interpolate:
  "interpolate (5404319552844581 / 2 ^ 54) (5764607523034235 / 2 ^ 58) (5764607523034235 / 2 ^ 58)
     = 1441151880758559 / 2 ^ 56"
proof -
  have a: "fl64 (1 - 5404319552844581 / 2 ^ 54) = 3152519739159351 / 2 ^ 52"
    by (subst fl64_eval [of "- 1"]) (simp_all add: round_half_even_def)
  have p1: "fl64 (3152519739159351 / 2 ^ 52 * (5764607523034235 / 2 ^ 58))
      = 8070450532247939 / 2 ^ 59"
    by (subst fl64_eval [of "- 7"]) (simp_all add: round_half_even_def)
  have p2: "fl64 (5404319552844581 / 2 ^ 54 * (5764607523034235 / 2 ^ 58))
      = 864691128455133 / 2 ^ 57"
    by (subst fl64_eval [of "- 8"]) (simp_all add: round_half_even_def)
  have r: "fl64 (8070450532247939 / 2 ^ 59 + 864691128455133 / 2 ^ 57) = 1441151880758559 / 2 ^ 56"
    by (subst fl64_eval [of "- 6"]) (simp_all add: round_half_even_def)
  show ?thesis
    by (simp only: interpolate_def fl_add_def fl_mul_def fl_sub_def a p1 p2 r)
qed

text \<open>
  C5 (as stated, with the interpolated value between the node values) fails in float64:
  on a track of constant metallicity \<^verbatim>\<open>0.02\<close> with nodes at the masses \<^verbatim>\<open>0.8\<close> and
  \<^verbatim>\<open>0.9\<close>, a star of mass \<^verbatim>\<open>0.83\<close> has \<open>h = 0.2999999999999992\<close> and is given the
  metallicity \<open>0.020000000000000004\<close>, above both node values.
\<close>

theorem interpolated_outside_nodes_counterexample:
  "map_sum id (\<lambda>st. data st ''FeHini'') (accept_or_reject flat_grid flat_state flat_candidate)
     = Inr (Some [1441151880758559 / 2 ^ 56])
   \<and> flat_track ''FeHini'' = Some (replicate 4 (5764607523034235 / 2 ^ 58))
   \<and> max (5764607523034235 / 2 ^ 58) (5764607523034235 / 2 ^ 58 :: real) < 1441151880758559 / 2 ^ 56"
proof -
  let ?q = "[1 / 2, 3602879701896397 / 2 ^ 52, 8106479329266893 / 2 ^ 53, 1 :: real]"
  have q: "cand_q flat_candidate ''Mini'' = Some ?q" by (simp add: flat_candidate_def)
  have m: "cand_m flat_candidate = 7475975381435023 / 2 ^ 53" by (simp add: flat_candidate_def)
  have wf_q: "\<forall>p\<in>set (params flat_grid). \<exists>col. cand_q flat_candidate p = Some col
      \<and> length col = length ?q"
    by (simp add: flat_grid_def flat_candidate_def)
  have wf_d: "\<forall>p\<in>set (params flat_grid @ [''age'', ''phase'']).
      \<exists>col. data flat_state p = Some col \<and> iv flat_state < length col"
    by (simp add: flat_grid_def flat_state_def)
  have "\<exists>st'. accept_or_reject flat_grid flat_state flat_candidate = Inr st'"
    by (rule accept_or_reject_ok [OF q _ _ wf_q wf_d, of 0]) (simp_all add: m)
  then obtain st' where acc: "accept_or_reject flat_grid flat_state flat_candidate = Inr st'"
    by blast
  have srt: "sorted ?q" by simp
  have p: "''FeHini'' \<in> set (params flat_grid)" by (simp add: flat_grid_def)
  have below: "cand_m flat_candidate < last ?q" by (simp add: m)
  have ne: "''FeHini'' \<noteq> ''age''" "''FeHini'' \<noteq> ''phase''" by simp_all
  from accepted_value [OF acc q below srt p ne] obtain im h col row where
    im: "Suc im < length ?q" "?q ! im \<le> cand_m flat_candidate"
        "cand_m flat_candidate < ?q ! Suc im" and
    h: "h = fl_div (fl_sub (cand_m flat_candidate) (?q ! im)) (fl_sub (?q ! Suc im) (?q ! im))" and
    col: "cand_q flat_candidate ''FeHini'' = Some col" and
    row: "data st' ''FeHini'' = Some row"
       "row ! iv flat_state = interpolate h (col ! im) (col ! Suc im)"
    by blast
  from im(1) have "im = 0 \<or> im = 1 \<or> im = 2" by auto
  with im(2,3) have im1: "im = 1" by (auto simp: m)
  from h have h': "h = 5404319552844581 / 2 ^ 54"
    unfolding im1 m using flat_weight by simp
  from col have c: "col = replicate 4 (5764607523034235 / 2 ^ 58)"
    by (simp add: flat_candidate_def)
  have v: "row ! 0 = 1441151880758559 / 2 ^ 56"
    using row(2) flat_interpolate unfolding h' c im1 by (simp add: flat_state_def)
  from accept_or_reject_InrD [OF acc] q below have iv1: "iv st' = iv flat_state + 1" by auto
  from accepted_rows [OF acc iv1] have kept: "rows_kept (iv flat_state) (data flat_state) (data st')"
    by blast
  have "data flat_state ''FeHini'' = Some (replicate 1 0)" by (simp add: flat_state_def)
  from rows_kept_SomeD [OF kept this] row(1) have "length row = 1" by simp
  then obtain x where "row = [x]" by (cases row) simp_all
  with v have "row = [1441151880758559 / 2 ^ 56]" by simp
  with acc row(1) have "map_sum id (\<lambda>st. data st ''FeHini'')
      (accept_or_reject flat_grid flat_state flat_candidate)
     = Inr (Some [1441151880758559 / 2 ^ 56])" by simp
  then show ?thesis by simp
qed

lemma attempt_InrD:
  "attempt np grid a aux st = Inr st' \<Longrightarrow>
     \<exists>c. draw_candidate np grid a aux (iv st) (rng st) = Inr c
        \<and> accept_or_reject grid st c = Inr st'"
  by (simp add: attempt_def bind_res_Inr_iff)

lemma sampler_inv_step:
  assumes inv: "sampler_inv a st" and lt: "int (iv st) < ns a"
      and att: "attempt np grid a aux st = Inr st'"
  shows "sampler_inv a st'"
proof -
  from attempt_InrD [OF att] obtain c where
    cand: "draw_candidate np grid a aux (iv st) (rng st) = Inr c" and
    acc: "accept_or_reject grid st c = Inr st'" by blast
  from accept_or_reject_InrD [OF acc]
  consider (accepted) "iv st' = iv st + 1" | (rejected) "iv st' = iv st" "data st' = data st"
    by (auto split: if_splits)
  then show ?thesis
  proof cases
    case rejected
    with inv show ?thesis by (simp add: sampler_inv_def)
  next
    case accepted
    from accepted_rows [OF acc accepted] obtain col' where
      kept: "rows_kept (iv st) (data st) (data st')" and
      col': "data st' ''phase'' = Some col'" "col' ! iv st = real (cand_phase c)"
      by blast
    from draw_candidate_InrD [OF cand]
    have ph: "cand_phase c =
        (if real (iv st) < forcing_threshold a then 0 else 1)"
      by blast
    from inv obtain col where
      col: "data st ''phase'' = Some col"
        "\<forall>k<iv st. col ! k = (if real k < forcing_threshold a then 0 else 1)"
      by (auto simp: sampler_inv_def)
    from rows_kept_SomeD [OF kept col(1)] col'(1)
    have same: "\<forall>k. k \<noteq> iv st \<longrightarrow> col' ! k = col ! k" by simp
    have 1: "int (iv st') \<le> ns a" using accepted lt by simp
    have 2: "length c' = nat (ns a)" if "data st' name = Some c'" for name c'
      using rows_kept_SomeD2 [OF kept that] inv by (auto simp: sampler_inv_def)
    have 3: "col' ! k = (if real k < forcing_threshold a then 0 else 1)"
      if "k < iv st'" for k
    proof (cases "k = iv st")
      case True
      with col'(2) ph show ?thesis by simp
    next
      case False
      with that accepted have "k < iv st" by simp
      with col(2) same False show ?thesis by simp
    qed
    from 1 2 3 col'(1) show ?thesis by (auto simp: sampler_inv_def)
  qed
qed

lemma prepare_InrD:
  assumes "prepare grid a = Inr (aux, data0)"
  shows "0 \<le> ns a \<and> data0 = (\<lambda>param. if param \<in> set (params grid @ [''age'', ''phase''])
                     then Some (replicate (nat (ns a)) 0) else None)"
  using assms by (auto simp: prepare_def Let_def bind_res_Inr_iff split: if_splits)

lemma sampler_inv_init:
  assumes "prepare grid a = Inr (aux, data0)"
  shows "sampler_inv a \<lparr>iv = 0, ne = 0, phase_i = 0, data = data0, rng = s0\<rparr>"
  using prepare_InrD [OF assms] by (auto simp: sampler_inv_def)

lemma generate_synth_stars_InrD:
  assumes "generate_synth_stars np grid a g = Some (Inr res)"
  shows "\<exists>aux data0 st'. prepare grid a = Inr (aux, data0)
     \<and> sampling_loop np grid a aux
          \<lparr>iv = 0, ne = 0, phase_i = 0, data = data0, rng = np_seed np (rand_seed a)\<rparr>
         = Some (Inr st')
     \<and> res = \<lparr>n_valid = iv st', n_discarded = ne st',
              outputfile = \<lparr>config_ns = ns a, file_data = data st'\<rparr>, rng_after = rng st'\<rparr>"
proof (cases "prepare grid a")
  case (Inl e)
  with assms show ?thesis by (simp add: generate_synth_stars_def)
next
  case (Inr pr)
  obtain aux data0 where pr: "pr = (aux, data0)" by (cases pr)
  let ?st0 = "\<lparr>iv = 0, ne = 0, phase_i = 0, data = data0, rng = np_seed np (rand_seed a)\<rparr>"
  from assms Inr pr obtain r where r: "sampling_loop np grid a aux ?st0 = Some r"
    and m: "map_sum id (\<lambda>st. \<lparr>n_valid = iv st, n_discarded = ne st,
                 outputfile = \<lparr>config_ns = ns a, file_data = data st\<rparr>,
                 rng_after = rng st\<rparr>) r = Inr res"
    by (auto simp: generate_synth_stars_def Let_def)
  from m obtain st' where "r = Inr st'"
    "res = \<lparr>n_valid = iv st', n_discarded = ne st',
              outputfile = \<lparr>config_ns = ns a, file_data = data st'\<rparr>, rng_after = rng st'\<rparr>"
    by (cases r) auto
  with Inr pr r show ?thesis by auto
qed

lemma generate_synth_stars_inv:
  assumes "generate_synth_stars np grid a g = Some (Inr res)"
  shows "int (n_valid res) = ns a
     \<and> (\<forall>name col. file_data (outputfile res) name = Some col \<longrightarrow> length col = nat (ns a))
     \<and> (\<exists>col. file_data (outputfile res) ''phase'' = Some col
          \<and> (\<forall>k<nat (ns a). col ! k =
                (if real k < forcing_threshold a then 0 else 1)))"
proof -
  from generate_synth_stars_InrD [OF assms] obtain aux data0 st' where
    pr: "prepare grid a = Inr (aux, data0)" and
    loop: "sampling_loop np grid a aux
          \<lparr>iv = 0, ne = 0, phase_i = 0, data = data0, rng = np_seed np (rand_seed a)\<rparr>
         = Some (Inr st')" and
    res: "res = \<lparr>n_valid = iv st', n_discarded = ne st',
              outputfile = \<lparr>config_ns = ns a, file_data = data st'\<rparr>, rng_after = rng st'\<rparr>"
    by blast
  from sampling_loop_invariant [OF loop, of "sampler_inv a", OF sampler_inv_init [OF pr]]
    sampler_inv_step [of a _ np grid aux]
  have "sampler_inv a st'" "\<not> int (iv st') < ns a" by blast+
  then have "int (iv st') = ns a" by (simp add: sampler_inv_def)
  with \<open>sampler_inv a st'\<close> res show ?thesis by (auto simp: sampler_inv_def)
qed

subsection \<open>Whole runs\<close>

lemma toy_args_simps [simp]:
  "ns (toy_args n g) = n" "extra_giants (toy_args n g) = g" "rand_seed (toy_args n g) = 1"
  by (simp_all add: toy_args_def)

lemma toy_prepare:
  "0 \<le> n \<Longrightarrow> prepare toy_grid (toy_args n g) =
     Inr (SingleBurst, (\<lambda>param. if param \<in> set [''logT'', ''Mini'', ''age'', ''phase'']
                         then Some (replicate (nat n) 0) else None))"
  by (simp add: prepare_def toy_args_def toy_grid_def cong: if_cong)

lemma toy_loop_returns:
  assumes "nat n - iv st = k" and "int (iv st) \<le> n"
      and "\<forall>p\<in>set [''logT'', ''Mini'', ''age'', ''phase''].
             \<exists>col. data st p = Some col \<and> length col = nat n"
  shows "\<exists>st'. sampling_loop (const_rng (2/3) z) toy_grid (toy_args n g) SingleBurst st
           = Some (Inr st')"
  using assms
proof (induction k arbitrary: st)
  case 0
  then have "\<not> int (iv st) < n" by simp
  then show ?case by (subst sampling_loop.simps) simp
next
  case (Suc k)
  let ?np = "const_rng (2/3) z" and ?a = "toy_args n g"
  let ?dwarf = "real (iv st) < forcing_threshold (toy_args n g)"
  let ?c = "\<lparr>cand_q = toy_track, cand_iso_age = 1 + 9 * (2/3),
          cand_m_min = (if ?dwarf then 1 else 2),
          cand_phase = (if ?dwarf then 0 else 1),
          cand_m = (if ?dwarf then 1 else 2) / (2/3),
          cand_rng = rng st + 3\<rparr>"
  from Suc.prems have lt: "int (iv st) < n" by simp
  have cand: "draw_candidate ?np toy_grid ?a SingleBurst (iv st) (rng st) = Inr ?c"
    by (rule toy_candidate) simp
  have q: "cand_q ?c ''Mini'' = Some [1, 2, 3, 4]" by simp
  have node: "[1, 2, 3, 4 :: real] ! 0 \<le> cand_m ?c" by simp
  have wf_q: "\<forall>p\<in>set (params toy_grid). \<exists>col. cand_q ?c p = Some col
      \<and> length col = length [1, 2, 3, 4 :: real]"
    using toy_wf_q by simp
  have wf_d: "\<forall>p\<in>set (params toy_grid @ [''age'', ''phase'']).
      \<exists>col. data st p = Some col \<and> iv st < length col"
    using Suc.prems(3) lt by (auto simp: toy_grid_def)
  from accept_or_reject_ok [OF q _ node wf_q wf_d] obtain st1 where
    acc: "accept_or_reject toy_grid st ?c = Inr st1" by auto
  have below: "cand_m ?c < last [1, 2, 3, 4]" by simp
  from accept_or_reject_InrD [OF acc] q below have iv1: "iv st1 = iv st + 1" by auto
  from accepted_rows [OF acc iv1] have kept: "rows_kept (iv st) (data st) (data st1)" by blast
  have w1: "\<forall>p\<in>set [''logT'', ''Mini'', ''age'', ''phase''].
             \<exists>col. data st1 p = Some col \<and> length col = nat n"
  proof
    fix p assume "p \<in> set [''logT'', ''Mini'', ''age'', ''phase'']"
    with Suc.prems(3) obtain col where "data st p = Some col" "length col = nat n" by blast
    with rows_kept_SomeD [OF kept this(1)]
    show "\<exists>col. data st1 p = Some col \<and> length col = nat n" by auto
  qed
  have "nat n - iv st1 = k" "int (iv st1) \<le> n" using Suc.prems(1) lt iv1 by simp_all
  from Suc.IH [OF this w1] obtain st' where
    "sampling_loop ?np toy_grid ?a SingleBurst st1 = Some (Inr st')" by blast
  moreover have "attempt ?np toy_grid ?a SingleBurst st = Inr st1"
    using cand acc by (simp add: attempt_def)
  ultimately show ?case using lt by (subst sampling_loop.simps) simp
qed

lemma toy_generate_returns:
  assumes "0 \<le> n"
  shows "\<exists>res. generate_synth_stars (const_rng (2/3) z) toy_grid (toy_args n g) s
            = Some (Inr res)"
proof -
  let ?st0 = "\<lparr>iv = 0, ne = 0, phase_i = 0,
      data = (\<lambda>param. if param \<in> set [''logT'', ''Mini'', ''age'', ''phase'']
                         then Some (replicate (nat n) 0) else None),
      rng = np_seed (const_rng (2/3) z) (rand_seed (toy_args n g))\<rparr>"
  have "\<exists>st'. sampling_loop (const_rng (2/3) z) toy_grid (toy_args n g) SingleBurst ?st0
           = Some (Inr st')"
    by (rule toy_loop_returns [of n _ "nat n"]) (use assms in simp_all)
  then show ?thesis
    using toy_prepare [OF assms, of g] by (auto simp: generate_synth_stars_def Let_def)
qed

lemma length_filter_from: "length (filter (\<lambda>k. c \<le> k) [0..<N]) = N - c"
  by (induction N) (auto simp: Suc_diff_le)

lemma count_forced:
  assumes len: "length col = N"
      and rule: "\<forall>k<N. col ! k = (if real k < t then 0 else (1::real))"
      and t: "0 \<le> t"
  shows "length (filter (\<lambda>x. x = 1) col) = N - nat \<lceil>t\<rceil>"
proof -
  have col: "col = map (\<lambda>k. if real k < t then 0 else 1) [0..<N]"
    using len rule by (intro nth_equalityI) simp_all
  have iff: "(\<not> real k < t) \<longleftrightarrow> nat \<lceil>t\<rceil> \<le> k" for k
    using t by (simp add: not_less ceiling_le_iff nat_le_iff)
  have "length (filter (\<lambda>x. x = 1) col)
      = length (filter (\<lambda>k. \<not> real k < t) [0..<N])"
    by (subst col) (simp add: filter_map comp_def)
  also have "\<dots> = length (filter (\<lambda>k. nat \<lceil>t\<rceil> \<le> k) [0..<N])" by (simp only: iff)
  also have "\<dots> = N - nat \<lceil>t\<rceil>" by (rule length_filter_from)
  finally show ?thesis .
qed

lemma forced_fraction:
  assumes "0 \<le> n" "0 \<le> g" "g \<le> 1"
  shows "nat n - nat \<lceil>real_of_int n * (1 - g)\<rceil> = nat \<lfloor>real_of_int n * g\<rfloor>"
proof -
  have "real_of_int n * (1 - g) = of_int n - real_of_int n * g" by (simp add: algebra_simps)
  then have "\<lceil>real_of_int n * (1 - g)\<rceil> = n - \<lfloor>real_of_int n * g\<rfloor>"
    by (simp add: ceiling_def)
  moreover have "0 \<le> \<lfloor>real_of_int n * g\<rfloor>" using assms by simp
  moreover have "\<lfloor>real_of_int n * g\<rfloor> \<le> n"
  proof -
    have "real_of_int n * g \<le> real_of_int n" using assms by (simp add: mult_left_le)
    then show ?thesis by (simp add: floor_le_iff)
  qed
  ultimately show ?thesis by simp
qed

lemma forcing_threshold_nonneg:
  assumes "0 \<le> ns a" "extra_giants a \<le> 1"
  shows "0 \<le> forcing_threshold a"
proof -
  from assms(1) have "0 \<le> fl64 (real_of_int (ns a))" by (simp add: fl64_nonneg)
  moreover from assms(2) have "0 \<le> fl64 (1 - extra_giants a)" by (simp add: fl64_nonneg)
  ultimately show ?thesis
    by (simp add: forcing_threshold_def fl_mul_def fl_sub_def fl64_nonneg)
qed

lemma forcing_threshold_half: "forcing_threshold (toy_args 3 (1 / 2)) = 3 / 2"
  by (simp add: forcing_threshold_def fl_mul_def fl_sub_def fl64_small_dyadics)

lemma forcing_threshold_fifth: "forcing_threshold (toy_args 50 double_0_2) = 40"
proof -
  have a: "fl64 (real_of_int 50) = 50" using fl64_of_int [of 50] by simp
  have b: "fl64 (1 - 3602879701896397 / 2 ^ 54) = 3602879701896397 / 2 ^ 52"
    by (subst fl64_eval [of "- 1"]) (simp_all add: round_half_even_def)
  have c: "fl64 (50 * (3602879701896397 / 2 ^ 52)) = 40"
    by (subst fl64_eval [of 5]) (simp_all add: round_half_even_def)
  show ?thesis
    by (simp only: forcing_threshold_def fl_mul_def fl_sub_def toy_args_simps double_0_2_def a b c)
qed

lemma forcing_threshold_three_tenths: "forcing_threshold (toy_args 10 double_0_3) = 7"
proof -
  have a: "fl64 (real_of_int 10) = 10" using fl64_of_int [of 10] by simp
  have b: "fl64 (1 - 5404319552844595 / 2 ^ 54) = 3152519739159347 / 2 ^ 52"
    by (subst fl64_eval [of "- 1"]) (simp_all add: round_half_even_def)
  have c: "fl64 (10 * (3152519739159347 / 2 ^ 52)) = 7"
    by (subst fl64_eval [of 2]) (simp_all add: round_half_even_def)
  show ?thesis
    by (simp only: forcing_threshold_def fl_mul_def fl_sub_def toy_args_simps double_0_3_def a b c)
qed

text \<open>
  C2 (as the code has it). For \<open>extra_giants\<close> in [0,1], a run that returns has
  accepted exactly \<open>ns\<close> stars; star \<open>k\<close> (in order of acceptance) carries phase 0 when
  \<open>k < T\<close> and phase 1 otherwise, where \<open>T\<close> is the float64 value of
  \<open>ns*(1-extra_giants)\<close> that line 108 computes; so exactly \<open>ns - ceil(T)\<close> stars, the
  last ones, carry phase 1. That count is \<open>floor(ns*extra_giants)\<close> whenever the two
  float64 operations are exact. (They are not always: for \<open>ns = 10\<close> and
  \<open>extra_giants = 0.3\<close> the threshold is rounded to 7, see
  \<open>forcing_threshold_three_tenths\<close>, and three stars are forced.)
\<close>

theorem forced_giants_by_threshold:
  assumes run: "generate_synth_stars np grid a g = Some (Inr res)"
      and frac: "0 \<le> extra_giants a" "extra_giants a \<le> 1"
  shows "\<exists>phase. file_data (outputfile res) ''phase'' = Some phase
     \<and> length phase = nat (ns a) \<and> int (n_valid res) = ns a
     \<and> (\<forall>k<nat (ns a). phase ! k = (if real k < forcing_threshold a then 0 else 1))
     \<and> length (filter (\<lambda>x. x = 1) phase) = nat (ns a) - nat \<lceil>forcing_threshold a\<rceil>
     \<and> (forcing_threshold a = real_of_int (ns a) * (1 - extra_giants a) \<longrightarrow>
          length (filter (\<lambda>x. x = 1) phase) = nat \<lfloor>real_of_int (ns a) * extra_giants a\<rfloor>)"
proof -
  from generate_synth_stars_inv [OF run] obtain phase where
    nv: "int (n_valid res) = ns a" and
    len: "\<forall>name col. file_data (outputfile res) name = Some col \<longrightarrow> length col = nat (ns a)" and
    ph: "file_data (outputfile res) ''phase'' = Some phase" and
    rule: "\<forall>k<nat (ns a). phase ! k = (if real k < forcing_threshold a then 0 else 1)"
    by blast
  from len ph have l: "length phase = nat (ns a)" by blast
  from nv have n0: "0 \<le> ns a" by linarith
  from count_forced [OF l rule forcing_threshold_nonneg [OF n0 frac(2)]]
  have cnt: "length (filter (\<lambda>x. x = 1) phase) = nat (ns a) - nat \<lceil>forcing_threshold a\<rceil>" .
  have "length (filter (\<lambda>x. x = 1) phase) = nat \<lfloor>real_of_int (ns a) * extra_giants a\<rfloor>"
    if "forcing_threshold a = real_of_int (ns a) * (1 - extra_giants a)"
    using cnt forced_fraction [OF n0 frac] that by simp
  with ph l nv rule cnt show ?thesis by blast
qed

text \<open>
  C2 (as stated, with the ceiling) fails: for \<open>ns = 3\<close> and \<open>extra_giants = 1/2\<close>,
  where the threshold 3/2 is exact in float64, the phases of the three accepted stars
  are 0, 0, 1: one forced giant, while \<open>ceil(3 * 1/2) = 2\<close>.
\<close>

theorem forced_giants_ceil_counterexample:
  "map_option (map_sum id (\<lambda>r. (n_valid r, file_data (outputfile r) ''phase'')))
      (generate_synth_stars (const_rng (2/3) 0) toy_grid (toy_args 3 (1/2)) 0)
     = Some (Inr (3, Some [0, 0, 1]))
   \<and> length (filter (\<lambda>x. x = 1) [0, 0, 1 :: real]) = 1
   \<and> nat \<lceil>real_of_int 3 * (1/2 :: real)\<rceil> = 2"
proof -
  let ?a = "toy_args 3 (1/2)"
  from toy_generate_returns [of 3 0 "1/2" 0] obtain res where
    run: "generate_synth_stars (const_rng (2/3) 0) toy_grid ?a 0 = Some (Inr res)" by auto
  from generate_synth_stars_inv [OF run] obtain col where
    nv: "n_valid res = 3" and
    len: "\<forall>name col. file_data (outputfile res) name = Some col \<longrightarrow> length col = 3" and
    ph: "file_data (outputfile res) ''phase'' = Some col" and
    rule: "\<forall>k<3. col ! k = (if real k < 3 / 2 then 0 else 1)"
    by (auto simp: forcing_threshold_half)
  from len ph have "length col = 3" by blast
  then obtain x y z where col: "col = [x, y, z]"
    by (auto simp: length_Suc_conv numeral_3_eq_3)
  from rule have "col ! 0 = 0" "col ! 1 = 0" "col ! 2 = 1" by simp_all
  with col have "col = [0, 0, 1]" by simp
  with run nv ph have "map_option (map_sum id (\<lambda>r. (n_valid r, file_data (outputfile r) ''phase'')))
      (generate_synth_stars (const_rng (2/3) 0) toy_grid ?a 0) = Some (Inr (3, Some [0, 0, 1]))"
    by simp
  moreover have "nat \<lceil>real_of_int 3 * (1/2 :: real)\<rceil> = 2"
  proof -
    have "\<lceil>3 / 2 :: real\<rceil> = 2" by (simp add: ceiling_eq_iff)
    then show ?thesis by simp
  qed
  ultimately show ?thesis by simp
qed

text \<open>
  C2, the scenario of the specification: \<open>ns = 50\<close>, \<open>extra_giants = 0.2\<close>. The
  threshold is 40 in float64; the first 40 accepted stars carry phase 0 and the last 10
  phase 1.
\<close>

theorem forced_giants_by_threshold_witness:
  "\<exists>res phase.
     generate_synth_stars (const_rng (2/3) 0) toy_grid (toy_args 50 double_0_2) 0 = Some (Inr res)
     \<and> 0 \<le> extra_giants (toy_args 50 double_0_2) \<and> extra_giants (toy_args 50 double_0_2) \<le> 1
     \<and> forcing_threshold (toy_args 50 double_0_2) = 40
     \<and> file_data (outputfile res) ''phase'' = Some phase
     \<and> take 40 phase = replicate 40 0 \<and> drop 40 phase = replicate 10 1
     \<and> length (filter (\<lambda>x. x = 1) phase) = 10"
proof -
  let ?a = "toy_args 50 double_0_2"
  from toy_generate_returns [of 50 0 double_0_2 0] obtain res where
    run: "generate_synth_stars (const_rng (2/3) 0) toy_grid ?a 0 = Some (Inr res)" by auto
  have frac: "0 \<le> extra_giants ?a" "extra_giants ?a \<le> 1" by (simp_all add: double_0_2_def)
  from forced_giants_by_threshold [OF run frac] obtain phase where
    ph: "file_data (outputfile res) ''phase'' = Some phase" and
    len: "length phase = 50" and
    rule: "\<forall>k<50. phase ! k = (if real k < 40 then 0 else 1)" and
    cnt: "length (filter (\<lambda>x. x = 1) phase) = 50 - nat \<lceil>40 :: real\<rceil>"
    by (auto simp: forcing_threshold_fifth)
  have t: "take 40 phase = replicate 40 0"
    using len rule by (intro nth_equalityI) simp_all
  have d: "drop 40 phase = replicate 10 1"
    using len rule by (intro nth_equalityI) simp_all
  from cnt have "length (filter (\<lambda>x. x = 1) phase) = 10" by simp
  with run frac ph t d forcing_threshold_fifth show ?thesis by blast
qed












subsection \<open>The shape of the burst array, and the seed\<close>

lemma prepare_no_axes:
  assumes "shape (t_bursts a) = []" "0 \<le> ns a"
  shows "prepare grid a = Inl IndexError"
  using assms by (simp add: prepare_def column2_def)

lemma prepare_short_axis:
  assumes "length (shape (t_bursts a)) \<noteq> 1" "2 \<le> length (shape (t_bursts a))"
    "shape (t_bursts a) ! 1 < 3" "0 \<le> ns a"
  shows "prepare grid a = Inl IndexError"
proof -
  from assms(2) obtain n k rest where s: "shape (t_bursts a) = n # k # rest"
    by (cases "shape (t_bursts a)"; cases "tl (shape (t_bursts a))") auto
  with assms show ?thesis by (simp add: prepare_def column2_def)
qed

lemma prepare_many_axes:
  assumes "3 \<le> length (shape (t_bursts a))" "3 \<le> shape (t_bursts a) ! 1" "0 \<le> ns a"
  shows "\<exists>p n data0. prepare grid a = Inr (MultiBurst p n, data0)
     \<and> (\<forall>pa. p = Some pa \<longrightarrow> length (shape pa) \<noteq> 1)"
proof -
  from assms(1) obtain n k r rest where s: "shape (t_bursts a) = n # k # r # rest"
    by (cases "shape (t_bursts a)"; cases "tl (shape (t_bursts a))";
        cases "tl (tl (shape (t_bursts a)))") auto
  with assms(2) have k: "2 < k" by simp
  let ?prob = "\<lparr>shape = n # r # rest,
      elems = concat (map (\<lambda>i. take (prod_list (r # rest))
         (drop (i * k * prod_list (r # rest) + 2 * prod_list (r # rest)) (elems (t_bursts a))))
         [0..<n])\<rparr>"
  have c: "column2 (t_bursts a) = Inr ?prob"
    using s k by (simp add: column2_def Let_def)
  have "\<forall>pa. divide_by_sum ?prob = Some pa \<longrightarrow> length (shape pa) \<noteq> 1"
    by (auto simp: divide_by_sum_def Let_def split: if_splits)
  moreover have "prepare grid a = Inr (MultiBurst (divide_by_sum ?prob) (hd (shape ?prob)),
      (\<lambda>param. if param \<in> set (params grid @ [''age'', ''phase''])
                     then Some (replicate (nat (ns a)) 0) else None))"
    using s assms(3) c by (simp add: prepare_def)
  ultimately show ?thesis by blast
qed

lemma attempt_bad_prob:
  assumes "\<forall>pa. p = Some pa \<longrightarrow> length (shape pa) \<noteq> 1"
  shows "attempt np grid a (MultiBurst p n) st = Inl ValueError"
proof -
  have "choice np n p s = Inl ValueError" for s
    using assms by (cases p) (simp_all add: choice_def)
  then show ?thesis
    by (simp add: attempt_def draw_candidate_def draw_age_def)
qed

lemma generate_after_prepare:
  assumes "prepare grid a = Inr (aux, data0)"
  shows "generate_synth_stars np grid a g =
     map_option
       (map_sum id (\<lambda>st. \<lparr>n_valid = iv st, n_discarded = ne st,
            outputfile = \<lparr>config_ns = ns a, file_data = data st\<rparr>, rng_after = rng st\<rparr>))
       (sampling_loop np grid a aux
          \<lparr>iv = 0, ne = 0, phase_i = 0, data = data0, rng = np_seed np (rand_seed a)\<rparr>)"
  using assms by (simp add: generate_synth_stars_def Let_def)

lemma generate_many_axes:
  assumes "3 \<le> length (shape (t_bursts a))" "3 \<le> shape (t_bursts a) ! 1" "0 \<le> ns a"
  shows "(\<exists>aux data0. prepare grid a = Inr (aux, data0)
            \<and> (\<forall>st. attempt np grid a aux st = Inl ValueError))
     \<and> (0 < ns a \<longrightarrow> generate_synth_stars np grid a g = Some (Inl ValueError))
     \<and> (ns a = 0 \<longrightarrow> (\<exists>res. generate_synth_stars np grid a g = Some (Inr res) \<and> n_valid res = 0))"
proof -
  from prepare_many_axes [OF assms] obtain p n data0 where
    pr: "prepare grid a = Inr (MultiBurst p n, data0)" and
    bad: "\<forall>pa. p = Some pa \<longrightarrow> length (shape pa) \<noteq> 1" by blast
  note att = attempt_bad_prob [OF bad]
  let ?st0 = "\<lparr>iv = 0, ne = 0, phase_i = 0, data = data0, rng = np_seed np (rand_seed a)\<rparr>"
  have pos: "generate_synth_stars np grid a g = Some (Inl ValueError)" if "0 < ns a"
  proof -
    have "sampling_loop np grid a (MultiBurst p n) ?st0 = Some (Inl ValueError)"
      using that by (subst sampling_loop.simps) (simp add: att)
    then show ?thesis by (simp add: generate_after_prepare [OF pr])
  qed
  have zero: "\<exists>res. generate_synth_stars np grid a g = Some (Inr res) \<and> n_valid res = 0"
    if "ns a = 0"
  proof -
    have "sampling_loop np grid a (MultiBurst p n) ?st0 = Some (Inr ?st0)"
      using that by (subst sampling_loop.simps) simp
    then show ?thesis by (simp add: generate_after_prepare [OF pr])
  qed
  from pr att pos zero show ?thesis by blast
qed

text \<open>
  C3 (as the code has it). No line checks the shape; an array that is not
  one-dimensional is read as a list of bursts. For a shape that is neither 1-D nor 2-D
  (and \<open>ns \<ge> 0\<close>): without axes, or with a second axis shorter than 3,
  \<^verbatim>\<open>t_bursts[:, 2]\<close> raises IndexError before the loop; otherwise the code before the
  loop succeeds and every pass fails with ValueError at the burst choice, so that the
  run fails in its first pass when \<open>ns > 0\<close> and returns an empty dataset when \<open>ns = 0\<close>.
\<close>

theorem malformed_burst_shape_fails:
  assumes bad: "length (shape (t_bursts a)) \<noteq> 1" "length (shape (t_bursts a)) \<noteq> 2"
      and n0: "0 \<le> ns a"
  shows "(length (shape (t_bursts a)) = 0 \<or> shape (t_bursts a) ! 1 < 3 \<longrightarrow>
            prepare grid a = Inl IndexError
          \<and> generate_synth_stars np grid a g = Some (Inl IndexError))
       \<and> (3 \<le> length (shape (t_bursts a)) \<and> 3 \<le> shape (t_bursts a) ! 1 \<longrightarrow>
            (\<exists>aux data0. prepare grid a = Inr (aux, data0)
               \<and> (\<forall>st. attempt np grid a aux st = Inl ValueError))
          \<and> (0 < ns a \<longrightarrow> generate_synth_stars np grid a g = Some (Inl ValueError))
          \<and> (ns a = 0 \<longrightarrow>
               (\<exists>res. generate_synth_stars np grid a g = Some (Inr res) \<and> n_valid res = 0)))"
proof -
  have early: "prepare grid a = Inl IndexError
          \<and> generate_synth_stars np grid a g = Some (Inl IndexError)"
    if "length (shape (t_bursts a)) = 0 \<or> shape (t_bursts a) ! 1 < 3"
  proof -
    have "prepare grid a = Inl IndexError"
    proof (cases "length (shape (t_bursts a)) = 0")
      case True
      then show ?thesis using prepare_no_axes n0 by simp
    next
      case False
      with bad have "2 \<le> length (shape (t_bursts a))" by arith
      moreover from False that have "shape (t_bursts a) ! 1 < 3" by simp
      ultimately have "2 \<le> length (shape (t_bursts a))" "shape (t_bursts a) ! 1 < 3"
        by simp_all
      from prepare_short_axis [OF bad(1) this n0] show ?thesis .
    qed
    then show ?thesis by (simp add: generate_synth_stars_def Let_def)
  qed
  from early generate_many_axes [OF _ _ n0, of grid np g] show ?thesis by blast
qed

lemma cube_args_simps [simp]:
  "ns (cube_args n) = n" "shape (t_bursts (cube_args n)) = [1, 3, 1]"
  by (simp_all add: cube_args_def toy_args_def)

text \<open>C3 for a burst array of shape (1, 3, 1) and one star.\<close>

theorem malformed_burst_shape_fails_witness:
  "length (shape (t_bursts (cube_args 1))) \<noteq> 1
   \<and> length (shape (t_bursts (cube_args 1))) \<noteq> 2
   \<and> 0 \<le> ns (cube_args 1)
   \<and> generate_synth_stars (const_rng (2/3) 0) toy_grid (cube_args 1) 0 = Some (Inl ValueError)"
  using malformed_burst_shape_fails [of "cube_args 1" toy_grid "const_rng (2/3) 0" 0]
  by simp

text \<open>
  C3 (as stated) fails for a burst array of shape (1, 3, 1): with \<open>ns = 0\<close> the run
  returns without any error; with \<open>ns = 1\<close> the code before the loop succeeds (it leaves
  a two-dimensional \<open>prob\<close>) and the ValueError is raised inside the loop.
\<close>

theorem no_shape_check_counterexample:
  "shape (t_bursts (cube_args 0)) = [1, 3, 1]
   \<and> map_option isl (generate_synth_stars (const_rng (2/3) 0) toy_grid (cube_args 0) 0)
       = Some False
   \<and> map_sum id fst (prepare toy_grid (cube_args 1))
       = Inr (MultiBurst (Some \<lparr>shape = [1, 1], elems = [1]\<rparr>) 1)
   \<and> generate_synth_stars (const_rng (2/3) 0) toy_grid (cube_args 1) 0 = Some (Inl ValueError)"
proof -
  from generate_many_axes [of "cube_args 0" toy_grid "const_rng (2/3) 0" 0]
  have a: "map_option isl (generate_synth_stars (const_rng (2/3) 0) toy_grid (cube_args 0) 0)
       = Some False" by auto
  from generate_many_axes [of "cube_args 1" toy_grid "const_rng (2/3) 0" 0]
  have b: "generate_synth_stars (const_rng (2/3) 0) toy_grid (cube_args 1) 0
      = Some (Inl ValueError)" by simp
  have c: "map_sum id fst (prepare toy_grid (cube_args 1))
       = Inr (MultiBurst (Some \<lparr>shape = [1, 1], elems = [1]\<rparr>) 1)"
    by (simp add: prepare_def cube_args_def toy_args_def column2_def divide_by_sum_def)
  from a b c show ?thesis by simp
qed

text \<open>
  C9. The run, the returned dataset and the generator state left behind included, is a
  function of the arguments (the seed among them) and the grid: the state \<open>g\<close> in which
  the process-wide generator happens to be at the call has no influence, since line 55
  seeds it first.
\<close>

theorem same_seed_same_run:
  "generate_synth_stars np grid a g = generate_synth_stars np grid a g'"
  by (simp add: generate_synth_stars_def)

end
